theory Spec2Isabelle
  imports Main "HOL-Library.Word"
begin

section \<open>concatfs: the concatenation engine of \<^verbatim>\<open>src/concatfs.c\<close>\<close>

text \<open>
  A shallow embedding of the parser of concatenation descriptions, the registry of open
  virtual files and the segmented read of \<^verbatim>\<open>concatfs.c\<close>. Values of type
  \<^verbatim>\<open>off_t\<close> and \<^verbatim>\<open>ssize_t\<close> are \<open>int\<close>, a \<^verbatim>\<open>size_t\<close> is a \<open>nat\<close>
  (below \<open>2^64\<close>), and the two conversions the read engine relies on (to \<^verbatim>\<open>size_t\<close>
  in a comparison, to \<^verbatim>\<open>int\<close> in its return) are written out; sums of file sizes are
  taken to stay in the range of \<^verbatim>\<open>off_t\<close>. C strings are \<open>string\<close>s without the
  terminating NUL. The linked lists of chunks and of open files are lists. The
  operating system is a record of functions: what each system or library call returns.
\<close>

subsection \<open>Constants and macros\<close>

definition PATH_MAX :: nat where
  "PATH_MAX = 4096"

definition OFF_T_MAX :: int where
  \<comment> \<open>\<^verbatim>\<open>((((off_t)1 << (sizeof(off_t) * 8 - 2)) - 1) * 2 + 1)\<close> with an 8-byte \<^verbatim>\<open>off_t\<close>\<close>
  "OFF_T_MAX = ((2 ^ 62 - 1) * 2 + 1)"

definition MIN_macro :: "int \<Rightarrow> int \<Rightarrow> int" where
  \<comment> \<open>the macro \<^verbatim>\<open>MIN\<close>\<close>
  "MIN_macro a b = (if a < b then a else b)"

definition MAX_macro :: "int \<Rightarrow> int \<Rightarrow> int" where
  \<comment> \<open>the macro \<^verbatim>\<open>MAX\<close>\<close>
  "MAX_macro a b = (if a > b then a else b)"

definition CLAMP :: "int \<Rightarrow> int \<Rightarrow> int \<Rightarrow> int" where
  "CLAMP x m M = MIN_macro M (MAX_macro x m)"

definition EINVAL :: int where
  "EINVAL = 22"

definition EBADF :: int where
  "EBADF = 9"

definition size_t_of :: "int \<Rightarrow> nat" where
  \<comment> \<open>conversion of a signed 64-bit value to \<^verbatim>\<open>size_t\<close>\<close>
  "size_t_of x = nat (x mod 2 ^ 64)"

definition int_of_ssize :: "int \<Rightarrow> int" where
  \<comment> \<open>conversion of a \<^verbatim>\<open>ssize_t\<close> to the \<^verbatim>\<open>int\<close> that \<^verbatim>\<open>read_concat_file\<close> returns\<close>
  "int_of_ssize x = sint (word_of_int x :: 32 word)"

subsection \<open>Outcomes\<close>

text \<open>
  A call either returns a value or leaves defined behaviour (\<open>Fault\<close>): a null
  pointer is dereferenced, or a buffer is read or written outside its bounds.
\<close>

datatype 'a outcome = Fault | Returns 'a

subsection \<open>The data of the program\<close>

record chunk =
  chunk_fd :: int
  startOffset :: int
  chunk_fsize :: int

record concat_file =
  chunks :: "chunk list"
  cf_fd :: int
  cf_fsize :: int
  refcount :: int

text \<open>
  The operating system, as the program sees it. \<open>sys_stat p\<close> is the \<^verbatim>\<open>st_size\<close> that
  \<^verbatim>\<open>stat(p, &stbuf)\<close> stores, \<open>None\<close> when the call fails. \<open>sys_open p flags\<close> is
  \<^verbatim>\<open>open(p, flags)\<close>: \<open>Inl e\<close> when it fails with \<^verbatim>\<open>errno\<close> \<open>e\<close>, \<open>Inr fd\<close> when it
  returns the descriptor \<open>fd\<close>. \<open>sys_open_rdonly k p\<close> is the value (a descriptor, or
  \<open>-1\<close>) that \<^verbatim>\<open>open(p, O_RDONLY)\<close> returns when \<open>k\<close> backing files have been opened
  before it in the same parse. \<open>fopen_r\<close> and \<open>fdopen_dup_r\<close> give the text that a
  stream opened with \<^verbatim>\<open>fopen(path, "r")\<close> or \<^verbatim>\<open>fdopen(dup(fd), "r")\<close> delivers, \<open>None\<close>
  when the stream cannot be opened. \<open>sys_pread k fd n pos\<close> is
  \<^verbatim>\<open>pread(fd, buf, n, pos)\<close> when \<open>k\<close> positional reads have been issued before it in
  the same read: \<open>Inl e\<close> when it returns a negative value and sets \<^verbatim>\<open>errno\<close> to \<open>e\<close>,
  \<open>Inr bs\<close> when it returns \<open>length bs\<close> and stores \<open>bs\<close> at \<^verbatim>\<open>buf\<close>. \<open>errno0\<close> is
  the value \<^verbatim>\<open>errno\<close> holds when no call has set it.
\<close>

record os =
  src_dir :: string
  sys_stat :: "string \<Rightarrow> int option"
  sys_open_rdonly :: "nat \<Rightarrow> string \<Rightarrow> int"
  sys_open :: "string \<Rightarrow> int \<Rightarrow> int + int"
  fopen_r :: "string \<Rightarrow> string option"
  fdopen_dup_r :: "int \<Rightarrow> string option"
  sys_pread :: "nat \<Rightarrow> int \<Rightarrow> nat \<Rightarrow> int \<Rightarrow> int + string"
  errno0 :: int

subsection \<open>The registry of open virtual files\<close>

fun open_files_find :: "concat_file list \<Rightarrow> int \<Rightarrow> concat_file option" where
  "open_files_find [] fd = None"
| "open_files_find (cf # open_files) fd =
     (if cf_fd cf = fd then Some cf else open_files_find open_files fd)"

definition open_files_push_front ::
  "concat_file list \<Rightarrow> concat_file option \<Rightarrow> concat_file list outcome" where
  \<comment> \<open>\<^verbatim>\<open>cf->next = open_files\<close> dereferences \<^verbatim>\<open>cf\<close> without a test\<close>
  "open_files_push_front open_files cf_opt =
     (case cf_opt of None \<Rightarrow> Fault | Some cf \<Rightarrow> Returns (cf # open_files))"

fun open_files_erase ::
  "concat_file list \<Rightarrow> int \<Rightarrow> concat_file option \<times> concat_file list" where
  "open_files_erase [] fd = (None, [])"
| "open_files_erase (cf # open_files) fd =
     (if cf_fd cf = fd then (Some cf, open_files)
      else (case open_files_erase open_files fd of (rv, rest) \<Rightarrow> (rv, cf # rest)))"

subsection \<open>The segmented read\<close>

text \<open>
  What a read leaves behind: the value returned, the bytes stored at \<^verbatim>\<open>buf\<close> in
  order, and the positional reads issued, each with its descriptor, its byte count and
  its position.
\<close>

record rd =
  ret :: int
  out :: string
  calls :: "(int \<times> nat \<times> int) list"

fun skip_chunks :: "chunk list \<Rightarrow> int \<Rightarrow> chunk list \<times> int" where
  \<comment> \<open>\<^verbatim>\<open>for (; c && offset > c->fsize; c = c->next) offset -= c->fsize;\<close>\<close>
  "skip_chunks [] offset = ([], offset)"
| "skip_chunks (c # cs) offset =
     (if offset > chunk_fsize c then skip_chunks cs (offset - chunk_fsize c)
      else (c # cs, offset))"

fun read_chunks ::
  "os \<Rightarrow> chunk list \<Rightarrow> nat \<Rightarrow> int \<Rightarrow> int \<Rightarrow> string \<Rightarrow> (int \<times> nat \<times> int) list \<Rightarrow> rd" where
  \<comment> \<open>the second loop and the final read of \<^verbatim>\<open>read_concat_file\<close>\<close>
  "read_chunks env [] count offset bytes_read buf tr =
     \<lparr>ret = int_of_ssize bytes_read, out = buf, calls = tr\<rparr>"
| "read_chunks env (c # cs) count offset bytes_read buf tr =
     (if count > size_t_of (chunk_fsize c - offset) then
        (let n = size_t_of (chunk_fsize c - offset);
             pos = offset + startOffset c;
             tr' = tr @ [(chunk_fd c, n, pos)]
         in case sys_pread env (length tr) (chunk_fd c) n pos of
              Inl e \<Rightarrow> \<lparr>ret = - e, out = buf, calls = tr'\<rparr>
            | Inr bs \<Rightarrow>
                if int (length bs) = chunk_fsize c - offset then
                  read_chunks env cs (count - length bs) 0
                    (bytes_read + int (length bs)) (buf @ bs) tr'
                else if length bs > 0 then
                  \<lparr>ret = int_of_ssize (bytes_read + int (length bs)),
                   out = buf @ bs, calls = tr'\<rparr>
                else \<lparr>ret = - errno0 env, out = buf, calls = tr'\<rparr>)
      else if count > 0 then
        (let pos = offset + startOffset c;
             tr' = tr @ [(chunk_fd c, count, pos)]
         in case sys_pread env (length tr) (chunk_fd c) count pos of
              Inl e \<Rightarrow> \<lparr>ret = - e, out = buf, calls = tr'\<rparr>
            | Inr bs \<Rightarrow>
                \<lparr>ret = int_of_ssize (bytes_read + int (length bs)),
                 out = buf @ bs, calls = tr'\<rparr>)
      else \<lparr>ret = int_of_ssize bytes_read, out = buf, calls = tr\<rparr>)"

definition read_concat_file :: "os \<Rightarrow> concat_file list \<Rightarrow> int \<Rightarrow> nat \<Rightarrow> int \<Rightarrow> rd" where
  "read_concat_file env open_files fd count offset =
     (case open_files_find open_files fd of
        None \<Rightarrow> \<lparr>ret = - EINVAL, out = [], calls = []\<rparr>
      | Some cf \<Rightarrow>
          if offset > cf_fsize cf then \<lparr>ret = 0, out = [], calls = []\<rparr>
          else (case skip_chunks (chunks cf) offset of
                  (cs, offset') \<Rightarrow> read_chunks env cs count offset' 0 [] []))"

subsection \<open>Library functions on C strings\<close>

definition c_str :: "string \<Rightarrow> string" where
  \<comment> \<open>the C string held by a buffer: the bytes before the first NUL\<close>
  "c_str buf = takeWhile (\<lambda>c. c \<noteq> CHR 0x00) buf"

fun fgets :: "nat \<Rightarrow> string \<Rightarrow> string \<times> string" where
  \<comment> \<open>\<open>fgets n s\<close>: at most \<open>n\<close> bytes of the stream \<open>s\<close>, up to and including the first
      newline; with them, the rest of the stream\<close>
  "fgets n [] = ([], [])"
| "fgets n (c # s) =
     (if n = 0 then ([], c # s)
      else if c = CHR 0x0A then ([c], s)
      else (case fgets (n - 1) s of (l, r) \<Rightarrow> (c # l, r)))"

fun strip_slashes :: "string \<Rightarrow> string" where
  \<comment> \<open>a path without its trailing slashes\<close>
  "strip_slashes p = rev (dropWhile (\<lambda>c. c = CHR ''/'') (rev p))"

definition dirname :: "string \<Rightarrow> string" where
  \<comment> \<open>\<^verbatim>\<open>dirname\<close> of \<^verbatim>\<open>libgen.h\<close>, as POSIX describes it\<close>
  "dirname p =
     (let q = strip_slashes p in
      if p = [] then ''.''
      else if q = [] then ''/''
      else if CHR ''/'' \<notin> set q then ''.''
      else (let d = strip_slashes (rev (tl (dropWhile (\<lambda>c. c \<noteq> CHR ''/'') (rev q))))
            in if d = [] then ''/'' else d))"

definition basename :: "string \<Rightarrow> string" where
  \<comment> \<open>\<^verbatim>\<open>basename\<close> of \<^verbatim>\<open>libgen.h\<close>, as POSIX describes it\<close>
  "basename p =
     (let q = strip_slashes p in
      if p = [] then ''.''
      else if q = [] then ''/''
      else rev (takeWhile (\<lambda>c. c \<noteq> CHR ''/'') (rev q)))"

fun starts_with :: "string \<Rightarrow> string \<Rightarrow> bool" where
  "starts_with s [] = True"
| "starts_with [] (c # n) = False"
| "starts_with (d # s) (c # n) = (d = c \<and> starts_with s n)"

fun strstr :: "string \<Rightarrow> string \<Rightarrow> bool" where
  \<comment> \<open>\<^verbatim>\<open>strstr(haystack, needle) != 0\<close>\<close>
  "strstr [] needle = (needle = [])"
| "strstr (c # s) needle = (starts_with (c # s) needle \<or> strstr s needle)"

definition strchr :: "string \<Rightarrow> char \<Rightarrow> (string \<times> string) option" where
  \<comment> \<open>\<^verbatim>\<open>strchr(s, c)\<close>: \<open>None\<close> for a null result, else the text before the first \<open>c\<close>
      and the text after it\<close>
  "strchr s c =
     (if c \<in> set s then Some (takeWhile (\<lambda>d. d \<noteq> c) s, tl (dropWhile (\<lambda>d. d \<noteq> c) s))
      else None)"

definition isspace :: "char \<Rightarrow> bool" where
  "isspace c = (c \<in> set [CHR '' '', CHR 0x09, CHR 0x0A, CHR 0x0B, CHR 0x0C, CHR 0x0D])"

definition isdigit :: "char \<Rightarrow> bool" where
  "isdigit c = (c \<in> set ''0123456789'')"

definition digit_val :: "char \<Rightarrow> int" where
  "digit_val c = int (of_char c) - 48"

definition sscanf_jd :: "string \<Rightarrow> int option" where
  \<comment> \<open>\<^verbatim>\<open>sscanf(s, "%jd", &x)\<close>: \<open>None\<close> when nothing is stored into \<open>x\<close>, else the
      value stored. White space is skipped, a sign is optional, the digits that follow
      are read in base 10; a value out of the range of \<^verbatim>\<open>intmax_t\<close> is stored as the
      nearest bound.\<close>
  "sscanf_jd s =
     (let t = dropWhile isspace s;
          neg = (t \<noteq> [] \<and> hd t = CHR ''-'');
          u = (if t \<noteq> [] \<and> (hd t = CHR ''-'' \<or> hd t = CHR ''+'') then tl t else t);
          ds = takeWhile isdigit u;
          v = foldl (\<lambda>a d. 10 * a + digit_val d) 0 ds
      in if ds = [] then None
         else Some (if neg then max (- (2 ^ 63)) (- v) else min (2 ^ 63 - 1) v))"

subsection \<open>The parser of descriptions\<close>

definition try_parse_line_offsets :: "os \<Rightarrow> string \<Rightarrow> (string \<times> int \<times> int) option" where
  \<comment> \<open>\<open>None\<close> for \<^verbatim>\<open>false\<close>; else the path left in \<^verbatim>\<open>line\<close> (cut at the first colon
      and not restored), \<^verbatim>\<open>*startOffset\<close> and \<^verbatim>\<open>*length\<close>\<close>
  "try_parse_line_offsets env line =
     (if line = [] then None
      else
        (let offsetsLineStart = strchr line CHR '':'';
             path = (case offsetsLineStart of None \<Rightarrow> line | Some (p, r) \<Rightarrow> p)
         in case sys_stat env path of
              None \<Rightarrow> None
            | Some st_size \<Rightarrow>
                if st_size < 1 then None
                else
                  (let s0 = (case offsetsLineStart of
                               None \<Rightarrow> - 1
                             | Some (p, r) \<Rightarrow>
                                 (case sscanf_jd r of None \<Rightarrow> - 1 | Some v \<Rightarrow> v));
                       l0 = (case offsetsLineStart of
                               None \<Rightarrow> OFF_T_MAX
                             | Some (p, r) \<Rightarrow>
                                 (case strchr r CHR '':'' of
                                    None \<Rightarrow> OFF_T_MAX
                                  | Some (a, r2) \<Rightarrow>
                                      (case sscanf_jd r2 of
                                         None \<Rightarrow> OFF_T_MAX
                                       | Some v \<Rightarrow> v)));
                       s = CLAMP s0 0 (st_size - 1);
                       l = CLAMP l0 1 (st_size - s)
                   in Some (path, s, l))))"

definition resolve :: "string \<Rightarrow> string \<Rightarrow> string" where
  \<comment> \<open>the content of \<^verbatim>\<open>tpath\<close> for the line \<^verbatim>\<open>fpath\<close>: \<^verbatim>\<open>strncpy\<close> or
      \<^verbatim>\<open>snprintf\<close> into \<^verbatim>\<open>PATH_MAX\<close> bytes\<close>
  "resolve base_dir fpath =
     (if fpath \<noteq> [] \<and> hd fpath = CHR ''/'' then fpath
      else take (PATH_MAX - 1) (base_dir @ ''/'' @ fpath))"

function parse_lines ::
  "os \<Rightarrow> int \<Rightarrow> string \<Rightarrow> string \<Rightarrow> concat_file \<Rightarrow> concat_file outcome" where
  \<comment> \<open>the loop \<^verbatim>\<open>while (fgets(fpath, sizeof(fpath), fp))\<close> on the rest of the stream\<close>
  "parse_lines env fd base_dir stream rv =
     (if stream = [] then Returns rv
      else
        (case fgets PATH_MAX stream of
           (buf, rest) \<Rightarrow>
             if c_str buf = [] then Fault
             else
               (let fpath = butlast (c_str buf);
                    tpath = resolve base_dir fpath
                in case try_parse_line_offsets env tpath of
                     None \<Rightarrow> parse_lines env fd base_dir rest rv
                   | Some (path, start, len) \<Rightarrow>
                       (let rv' = rv\<lparr>cf_fsize := cf_fsize rv + len\<rparr>
                        in if fd \<ge> 0 then
                             parse_lines env fd base_dir rest
                               (rv'\<lparr>chunks := chunks rv' @
                                  [\<lparr>chunk_fd = sys_open_rdonly env (length (chunks rv')) path,
                                    startOffset = start, chunk_fsize = len\<rparr>]\<rparr>)
                           else parse_lines env fd base_dir rest rv'))))"
  by pat_completeness auto
termination
proof -
  have shorter: "length (snd (fgets n s)) < length s" if "0 < n" and "s \<noteq> []" for n s
    using that
  proof (induction s arbitrary: n)
    case Nil
    then show ?case by simp
  next
    case (Cons c s)
    show ?case
    proof (cases "s = [] \<or> n - 1 = 0 \<or> c = CHR 0x0A")
      case True
      with Cons.prems show ?thesis
        by (cases s) (auto split: prod.splits)
    next
      case False
      with Cons.IH [of "n - 1"] have "length (snd (fgets (n - 1) s)) < length s"
        by simp
      with Cons.prems False show ?thesis
        by (auto split: prod.splits)
    qed
  qed
  have pm: "0 < PATH_MAX"
    by (simp add: PATH_MAX_def)
  have step: "length rest < length stream"
    if "stream \<noteq> []" and "(buf, rest) = fgets PATH_MAX stream" for stream buf rest
    using shorter [OF pm that(1)] that(2) by (metis snd_conv)
  show ?thesis
    by (relation "measure (\<lambda>(env, fd, base_dir, stream, rv). length stream)")
      (auto dest: step)
qed

declare parse_lines.simps [simp del]

definition open_concat_file :: "os \<Rightarrow> int \<Rightarrow> string \<Rightarrow> concat_file option outcome" where
  "open_concat_file env fd path =
     (case (if fd \<ge> 0 then fdopen_dup_r env fd else fopen_r env path) of
        None \<Rightarrow> Returns None
      | Some stream \<Rightarrow>
          if length path > PATH_MAX then Fault
          else
            (case parse_lines env fd (dirname path) stream
                    \<lparr>chunks = [], cf_fd = fd, cf_fsize = 0, refcount = 1\<rparr> of
               Fault \<Rightarrow> Fault
             | Returns rv \<Rightarrow> Returns (Some rv)))"

definition get_concat_file_size :: "os \<Rightarrow> string \<Rightarrow> int outcome" where
  \<comment> \<open>\<^verbatim>\<open>close_concat_file(c)\<close> frees the object: it has no chunk to close, and its
      \<^verbatim>\<open>close(-1)\<close> fails without effect\<close>
  "get_concat_file_size env path =
     (case open_concat_file env (- 1) path of
        Fault \<Rightarrow> Fault
      | Returns None \<Rightarrow> Returns 0
      | Returns (Some c) \<Rightarrow> Returns (cf_fsize c))"

subsection \<open>The filesystem operations on virtual paths\<close>

definition is_concatfs_file :: "string \<Rightarrow> bool outcome" where
  \<comment> \<open>\<^verbatim>\<open>strncpy(fpath, path, sizeof(fpath))\<close> leaves \<^verbatim>\<open>fpath\<close> without a terminating
      NUL when \<^verbatim>\<open>path\<close> has \<^verbatim>\<open>PATH_MAX\<close> bytes or more\<close>
  "is_concatfs_file path =
     (if length path \<ge> PATH_MAX then Fault
      else Returns (strstr (basename path) ''-concat-''))"

definition concatfs_open ::
  "os \<Rightarrow> concat_file list \<Rightarrow> string \<Rightarrow> int \<Rightarrow> (int \<times> int option \<times> concat_file list) outcome" where
  \<comment> \<open>the value returned, \<^verbatim>\<open>fi->fh\<close> when it has been set, and the registry\<close>
  "concatfs_open env open_files path flags =
     (let fpath = take (PATH_MAX - 1) (src_dir env @ ''/'' @ path)
      in case sys_open env fpath flags of
           Inl e \<Rightarrow> Returns (- e, None, open_files)
         | Inr fd \<Rightarrow>
             (case is_concatfs_file path of
                Fault \<Rightarrow> Fault
              | Returns False \<Rightarrow> Returns (0, Some fd, open_files)
              | Returns True \<Rightarrow>
                  (case open_concat_file env fd fpath of
                     Fault \<Rightarrow> Fault
                   | Returns cf \<Rightarrow>
                       (case open_files_push_front open_files cf of
                          Fault \<Rightarrow> Fault
                        | Returns open_files' \<Rightarrow> Returns (0, Some fd, open_files')))))"

definition concatfs_read ::
  "os \<Rightarrow> concat_file list \<Rightarrow> string \<Rightarrow> int \<Rightarrow> nat \<Rightarrow> int \<Rightarrow> rd outcome" where
  "concatfs_read env open_files path fh size' offset =
     (case is_concatfs_file path of
        Fault \<Rightarrow> Fault
      | Returns True \<Rightarrow> Returns (read_concat_file env open_files fh size' offset)
      | Returns False \<Rightarrow>
          Returns (case sys_pread env 0 fh size' offset of
                     Inl e \<Rightarrow> \<lparr>ret = - e, out = [], calls = [(fh, size', offset)]\<rparr>
                   | Inr bs \<Rightarrow>
                       \<lparr>ret = int_of_ssize (int (length bs)), out = bs,
                        calls = [(fh, size', offset)]\<rparr>))"

subsection \<open>Traces of positional reads\<close>

text \<open>
  The bytes that the positional reads of a trace stored, the \<open>k\<close>-th read of the trace
  being the one issued after \<open>k\<close> others; and the reads that came back short: with a
  positive number of bytes, smaller than the number requested.
\<close>

fun delivered :: "os \<Rightarrow> nat \<Rightarrow> (int \<times> nat \<times> int) list \<Rightarrow> string" where
  "delivered env k [] = []"
| "delivered env k ((fd, n, pos) # tr) =
     (case sys_pread env k fd n pos of Inl e \<Rightarrow> [] | Inr bs \<Rightarrow> bs) @ delivered env (Suc k) tr"

definition short_read :: "os \<Rightarrow> nat \<Rightarrow> int \<times> nat \<times> int \<Rightarrow> bool" where
  "short_read env k call =
     (case call of (fd, n, pos) \<Rightarrow>
        (case sys_pread env k fd n pos of
           Inl e \<Rightarrow> False
         | Inr bs \<Rightarrow> 0 < length bs \<and> length bs < n))"

definition no_short :: "os \<Rightarrow> (int \<times> nat \<times> int) list \<Rightarrow> bool" where
  "no_short env tr =
     (\<forall>pre y post. tr = pre @ y # post \<longrightarrow> \<not> short_read env (length pre) y)"

definition short_is_last :: "os \<Rightarrow> rd \<Rightarrow> bool" where
  "short_is_last env r =
     (\<forall>pre y post. calls r = pre @ y # post \<and> short_read env (length pre) y \<longrightarrow>
        post = [] \<and> out r = delivered env 0 (calls r) \<and>
        ret r = int_of_ssize (int (length (out r))))"

subsection \<open>The bytes of a virtual file\<close>

text \<open>
  \<open>data fd\<close> is the content of the backing file open at descriptor \<open>fd\<close>. The slice
  of a chunk is the part of its backing file that the chunk names; the bytes of a virtual
  file are the slices of its chunks, in order. \<open>full_reads\<close> says that the positional
  reads inside a chunk's slice deliver every byte requested, from the backing file, whose
  length is a value of \<^verbatim>\<open>off_t\<close>.
\<close>

definition slice :: "(int \<Rightarrow> string) \<Rightarrow> chunk \<Rightarrow> string" where
  "slice data c = take (nat (chunk_fsize c)) (drop (nat (startOffset c)) (data (chunk_fd c)))"

definition virtual_bytes :: "(int \<Rightarrow> string) \<Rightarrow> chunk list \<Rightarrow> string" where
  "virtual_bytes data cs = concat (map (slice data) cs)"

definition total :: "chunk list \<Rightarrow> int" where
  "total cs = sum_list (map chunk_fsize cs)"

definition full_reads :: "os \<Rightarrow> (int \<Rightarrow> string) \<Rightarrow> chunk \<Rightarrow> bool" where
  "full_reads env data c =
     (startOffset c + chunk_fsize c \<le> int (length (data (chunk_fd c))) \<and>
      int (length (data (chunk_fd c))) \<le> OFF_T_MAX \<and>
      (\<forall>k n pos. startOffset c \<le> pos \<and> pos + int n \<le> startOffset c + chunk_fsize c \<longrightarrow>
         sys_pread env k (chunk_fd c) n pos = Inr (take n (drop (nat pos) (data (chunk_fd c))))))"

definition backed :: "os \<Rightarrow> (int \<Rightarrow> string) \<Rightarrow> chunk \<Rightarrow> bool" where
  "backed env data c = (0 \<le> startOffset c \<and> 1 \<le> chunk_fsize c \<and> full_reads env data c)"

definition chunks_ok :: "concat_file \<Rightarrow> bool" where
  "chunks_ok rv =
     ((\<forall>c\<in>set (chunks rv). 0 \<le> startOffset c \<and> 1 \<le> chunk_fsize c) \<and>
      cf_fsize rv = total (chunks rv))"

subsection \<open>Examples\<close>

text \<open>
  A backing file \<open>/s/a\<close> of ten bytes, and the virtual file of the two slices
  \<open>a:2:5\<close> and \<open>a:7:\<close>, registered under descriptor 3.
\<close>

definition ex_cf :: concat_file where
  "ex_cf = \<lparr>chunks = [\<lparr>chunk_fd = 5, startOffset = 2, chunk_fsize = 5\<rparr>,
                       \<lparr>chunk_fd = 6, startOffset = 7, chunk_fsize = 3\<rparr>],
            cf_fd = 3, cf_fsize = 8, refcount = 1\<rparr>"

definition ex_os :: os where
  "ex_os = \<lparr>src_dir = ''/s'',
     sys_stat = (\<lambda>p. if p = ''/s/a'' then Some 10 else None),
     sys_open_rdonly = (\<lambda>k p. if p = ''/s/a'' then 5 + int k else - 1),
     sys_open = (\<lambda>p flags. if p = ''/s//m-concat-x'' then Inr 3 else Inl 2),
     fopen_r = (\<lambda>p. if p = ''/s//m-concat-x''
                     then Some (''a:2:5'' @ [CHR 0x0A] @ ''a:7:'' @ [CHR 0x0A]) else None),
     fdopen_dup_r = (\<lambda>fd. if fd = 3
                     then Some (''a:2:5'' @ [CHR 0x0A] @ ''a:7:'' @ [CHR 0x0A]) else None),
     sys_pread = (\<lambda>k fd n pos. if fd = 5 \<or> fd = 6
                     then Inr (take n (drop (nat pos) ''0123456789'')) else Inl EBADF),
     errno0 = 0\<rparr>"

text \<open>The same system, where no positional read delivers more than two bytes.\<close>

definition ex_os_short :: os where
  "ex_os_short = ex_os\<lparr>sys_pread := (\<lambda>k fd n pos. if fd = 5 \<or> fd = 6
                     then Inr (take (min n 2) (drop (nat pos) ''0123456789'')) else Inl EBADF)\<rparr>"

text \<open>
  The same system, where no backing file can be opened: \<^verbatim>\<open>stat\<close> succeeds on
  \<open>/s/a\<close>, \<^verbatim>\<open>open\<close> fails on it. The virtual file that the parser builds there.
\<close>

definition ex_os_unopened :: os where
  "ex_os_unopened = ex_os\<lparr>sys_open_rdonly := (\<lambda>k p. - 1)\<rparr>"

definition ex_cf_unopened :: concat_file where
  "ex_cf_unopened = \<lparr>chunks = [\<lparr>chunk_fd = - 1, startOffset = 2, chunk_fsize = 5\<rparr>,
                                \<lparr>chunk_fd = - 1, startOffset = 7, chunk_fsize = 3\<rparr>],
                     cf_fd = 3, cf_fsize = 8, refcount = 1\<rparr>"

text \<open>A stream of one line, and the object the parser starts from.\<close>

definition ex_line :: string where
  "ex_line = ''a:2:5'' @ [CHR 0x0A]"

definition ex_rv0 :: concat_file where
  "ex_rv0 = \<lparr>chunks = [], cf_fd = 3, cf_fsize = 0, refcount = 1\<rparr>"

text \<open>
  A description that is one blank line, in a directory \<open>/s\<close> for which \<^verbatim>\<open>stat\<close>
  reports 4096 bytes, as it does for a directory of an ext4 filesystem.
\<close>

definition ex_os_blank :: os where
  "ex_os_blank = ex_os\<lparr>
     sys_stat := (\<lambda>p. if p = ''/s/a'' then Some 10 else if p = ''/s/'' then Some 4096 else None),
     sys_open_rdonly := (\<lambda>k p. if p = ''/s/a'' \<or> p = ''/s/'' then 5 + int k else - 1),
     fopen_r := (\<lambda>p. if p = ''/s//m-concat-x'' then Some [CHR 0x0A] else None),
     fdopen_dup_r := (\<lambda>fd. if fd = 3 then Some [CHR 0x0A] else None)\<rparr>"

subsection \<open>The body of the parser's loop\<close>

text \<open>
  What one round of the loop of \<^verbatim>\<open>open_concat_file\<close> does to the object, from the
  content of \<^verbatim>\<open>tpath\<close> on.
\<close>

definition loop_body :: "os \<Rightarrow> int \<Rightarrow> string \<Rightarrow> concat_file \<Rightarrow> concat_file" where
  "loop_body env fd tpath rv =
     (case try_parse_line_offsets env tpath of
        None \<Rightarrow> rv
      | Some (path, start, len) \<Rightarrow>
          if fd \<ge> 0 then
            rv\<lparr>cf_fsize := cf_fsize rv + len,
               chunks := chunks rv @
                 [\<lparr>chunk_fd = sys_open_rdonly env (length (chunks rv)) path,
                   startOffset = start, chunk_fsize = len\<rparr>]\<rparr>
          else rv\<lparr>cf_fsize := cf_fsize rv + len\<rparr>)"

subsection \<open>The fields of a line, as the description format states them\<close>

text \<open>
  The start of a slice for the text \<open>a\<close> of the start field and a backing file of \<open>sz\<close>
  bytes: 0 when the field holds no number, else the number clamped to \<open>[0, sz - 1]\<close>.
  The length for the text \<open>b\<close> of the length field and the start \<open>s\<close>: the rest of the
  file when the field holds no number, else the number clamped to \<open>[1, sz - s]\<close>.
\<close>

definition spec_start :: "string \<Rightarrow> int \<Rightarrow> int" where
  "spec_start a sz = (case sscanf_jd a of None \<Rightarrow> 0 | Some v \<Rightarrow> min (sz - 1) (max v 0))"

definition spec_length :: "string \<Rightarrow> int \<Rightarrow> int \<Rightarrow> int" where
  "spec_length b sz s = (case sscanf_jd b of None \<Rightarrow> sz - s | Some w \<Rightarrow> min (sz - s) (max w 1))"

subsection \<open>The classifier of \<^verbatim>\<open>poc_concatfs.c\<close>\<close>

text \<open>
  The earlier program of the repository looks for the marker in the whole path:
  \<^verbatim>\<open>return (strstr(path, "-concat-") != 0);\<close>
\<close>

definition poc_is_concatfs_file :: "string \<Rightarrow> bool" where
  "poc_is_concatfs_file path = strstr path ''-concat-''"

subsection \<open>More examples\<close>

text \<open>
  The system of the examples, where the description is open for writing only, so that
  \<^verbatim>\<open>fdopen(dup(fd), "r")\<close> fails.
\<close>

definition ex_os_wronly :: os where
  "ex_os_wronly = ex_os\<lparr>fdopen_dup_r := (\<lambda>fd. None)\<rparr>"

text \<open>
  A description of the one line \<open>a\<close> in a directory \<open>/s:3\<close>, beside a directory
  \<open>/s\<close> for which \<^verbatim>\<open>stat\<close> reports 4096 bytes.
\<close>

definition ex_os_colon :: os where
  "ex_os_colon = \<lparr>src_dir = ''/s:3'',
     sys_stat = (\<lambda>p. if p = ''/s:3/a'' then Some 10 else if p = ''/s'' then Some 4096 else None),
     sys_open_rdonly = (\<lambda>k p. 5 + int k),
     sys_open = (\<lambda>p flags. if p = ''/s:3//m-concat-x'' then Inr 3 else Inl 2),
     fopen_r = (\<lambda>p. if p = ''/s:3//m-concat-x'' then Some (''a'' @ [CHR 0x0A]) else None),
     fdopen_dup_r = (\<lambda>fd. if fd = 3 then Some (''a'' @ [CHR 0x0A]) else None),
     sys_pread = (\<lambda>k fd n pos. Inl EBADF),
     errno0 = 0\<rparr>"

section \<open>Properties\<close>

subsection \<open>Short reads\<close>

lemma delivered_append:
  "delivered env k (a @ b) = delivered env k a @ delivered env (k + length a) b"
  by (induction a arbitrary: k) (auto split: sum.splits)

lemma snoc_split:
  assumes "tr @ [x] = pre @ y # post"
  shows "(post = [] \<and> pre = tr \<and> y = x) \<or>
         (\<exists>post'. post = post' @ [x] \<and> tr = pre @ y # post')"
proof (cases post rule: rev_cases)
  case Nil
  with assms show ?thesis by simp
next
  case (snoc post' z)
  with assms have "tr @ [x] = (pre @ y # post') @ [z]" by simp
  then have "tr = pre @ y # post'" and "x = z" by (simp_all only: append1_eq_conv)
  with snoc show ?thesis by simp
qed

lemma no_short_snoc:
  "no_short env tr \<Longrightarrow> \<not> short_read env (length tr) x \<Longrightarrow> no_short env (tr @ [x])"
  unfolding no_short_def by (metis snoc_split)

lemma last_call_result:
  assumes "no_short env tr"
    and "short_read env (length tr) x \<Longrightarrow>
           b = delivered env 0 (tr @ [x]) \<and> v = int_of_ssize (int (length b))"
  shows "short_is_last env \<lparr>ret = v, out = b, calls = tr @ [x]\<rparr>"
  unfolding short_is_last_def
proof (intro allI impI)
  fix pre y post
  let ?r = "\<lparr>ret = v, out = b, calls = tr @ [x]\<rparr>"
  assume a: "calls ?r = pre @ y # post \<and> short_read env (length pre) y"
  then have "tr @ [x] = pre @ y # post" by simp
  from snoc_split [OF this] a assms(1) have "post = [] \<and> pre = tr \<and> y = x"
    unfolding no_short_def by blast
  with a assms(2)
  show "post = [] \<and> out ?r = delivered env 0 (calls ?r) \<and>
        ret ?r = int_of_ssize (int (length (out ?r)))"
    by simp
qed

lemma no_call_result:
  assumes "no_short env tr"
  shows "short_is_last env \<lparr>ret = v, out = b, calls = tr\<rparr>"
  using assms unfolding short_is_last_def no_short_def by auto

lemma size_t_of_le: "0 \<le> x \<Longrightarrow> int (size_t_of x) \<le> x"
  unfolding size_t_of_def by (simp add: zmod_le_nonneg_dividend)

lemma read_chunks_short:
  assumes "no_short env tr" and "buf = delivered env 0 tr" and "bytes_read = int (length buf)"
  shows "short_is_last env (read_chunks env cs count offset bytes_read buf tr)"
  using assms
proof (induction cs arbitrary: count offset bytes_read buf tr)
  case Nil
  then show ?case by (simp add: no_call_result)
next
  case (Cons c cs)
  let ?n = "size_t_of (chunk_fsize c - offset)"
  let ?pos = "offset + startOffset c"
  show ?case
  proof (cases "count > ?n")
    case True
    let ?x = "(chunk_fd c, ?n, ?pos)"
    show ?thesis
    proof (cases "sys_pread env (length tr) (chunk_fd c) ?n ?pos")
      case (Inl e)
      then have "\<not> short_read env (length tr) ?x" by (simp add: short_read_def)
      with Cons.prems(1) have "short_is_last env \<lparr>ret = - e, out = buf, calls = tr @ [?x]\<rparr>"
        by (intro last_call_result) simp_all
      with True Inl show ?thesis
        by (simp add: Let_def)
    next
      case (Inr bs)
      show ?thesis
      proof (cases "int (length bs) = chunk_fsize c - offset")
        case full: True
        then have "int ?n \<le> int (length bs)"
          using size_t_of_le [of "chunk_fsize c - offset"] by simp
        then have ns: "\<not> short_read env (length tr) ?x"
          using Inr by (simp add: short_read_def)
        have d: "buf @ bs = delivered env 0 (tr @ [?x])"
          using Cons.prems(2) Inr by (simp add: delivered_append)
        have "short_is_last env (read_chunks env cs (count - length bs) 0
            (bytes_read + int (length bs)) (buf @ bs) (tr @ [?x]))"
          by (rule Cons.IH [OF no_short_snoc [OF Cons.prems(1) ns] d]) (simp add: Cons.prems(3))
        with True Inr full show ?thesis by (simp add: Let_def)
      next
        case False
        have "short_is_last env
            \<lparr>ret = (if length bs > 0 then int_of_ssize (bytes_read + int (length bs))
                    else - errno0 env),
             out = (if length bs > 0 then buf @ bs else buf), calls = tr @ [?x]\<rparr>"
          using Cons.prems Inr
          by (intro last_call_result) (auto simp: short_read_def delivered_append)
        with True Inr False show ?thesis by (cases "bs = []") (simp_all add: Let_def)
      qed
    qed
  next
    case False
    show ?thesis
    proof (cases "count > 0")
      case pos: True
      let ?x = "(chunk_fd c, count, ?pos)"
      have "short_is_last env (case sys_pread env (length tr) (chunk_fd c) count ?pos of
              Inl e \<Rightarrow> \<lparr>ret = - e, out = buf, calls = tr @ [?x]\<rparr>
            | Inr bs \<Rightarrow> \<lparr>ret = int_of_ssize (bytes_read + int (length bs)),
                         out = buf @ bs, calls = tr @ [?x]\<rparr>)"
        using Cons.prems
        by (auto split: sum.splits intro!: last_call_result
            simp: short_read_def delivered_append)
      with False pos show ?thesis by (simp add: Let_def)
    next
      case z: False
      with False Cons.prems(1) show ?thesis by (simp add: no_call_result)
    qed
  qed
qed

lemma read_concat_file_short:
  "short_is_last env (read_concat_file env open_files fd count offset)"
proof -
  have n: "no_short env []" by (simp add: no_short_def)
  have "short_is_last env (read_chunks env cs count off 0 [] [])" for cs off
    by (rule read_chunks_short [OF n]) simp_all
  then show ?thesis
    using no_call_result [OF n]
    by (simp add: read_concat_file_def split: option.splits prod.splits)
qed

text \<open>
  C9. When a positional read of a segmented read comes back with a positive number of
  bytes that is smaller than the number requested, it is the last read issued: nothing
  is read from a later segment, the buffer holds the bytes of the reads before it
  followed by the bytes of the short read, and the value returned is the number of these
  bytes (as the \<^verbatim>\<open>int\<close> the function returns).
\<close>

theorem short_read_is_terminal:
  assumes "calls (read_concat_file env open_files fd count offset) = pre @ (cfd, n, pos) # post"
    and "sys_pread env (length pre) cfd n pos = Inr bs"
    and "0 < length bs" and "length bs < n"
  shows "post = [] \<and>
    out (read_concat_file env open_files fd count offset) = delivered env 0 pre @ bs \<and>
    ret (read_concat_file env open_files fd count offset) =
      int_of_ssize (int (length (delivered env 0 pre)) + int (length bs))"
proof -
  let ?r = "read_concat_file env open_files fd count offset"
  have s: "short_read env (length pre) (cfd, n, pos)"
    using assms(2-4) by (simp add: short_read_def)
  have "short_is_last env ?r"
    by (rule read_concat_file_short)
  with assms(1) s have p: "post = []" and o: "out ?r = delivered env 0 (calls ?r)"
    and r: "ret ?r = int_of_ssize (int (length (out ?r)))"
    unfolding short_is_last_def by blast+
  from o assms(1,2) p have "out ?r = delivered env 0 pre @ bs"
    by (simp add: delivered_append)
  with p r show ?thesis by simp
qed

theorem short_read_is_terminal_witness:
  "calls (read_concat_file ex_os_short [ex_cf] 3 8 0) = [] @ (5, 5, 2) # []
   \<and> sys_pread ex_os_short (length ([] :: (int \<times> nat \<times> int) list)) 5 5 2 = Inr ''23''
   \<and> 0 < length ''23'' \<and> length ''23'' < (5 :: nat)
   \<and> out (read_concat_file ex_os_short [ex_cf] 3 8 0) = ''23''
   \<and> ret (read_concat_file ex_os_short [ex_cf] 3 8 0) = 2"
proof -
  have c: "calls (read_concat_file ex_os_short [ex_cf] 3 8 0) = [] @ (5, 5, 2) # []"
    by (simp add: read_concat_file_def ex_cf_def ex_os_short_def ex_os_def size_t_of_def)
  have p: "sys_pread ex_os_short (length ([] :: (int \<times> nat \<times> int) list)) 5 5 2 = Inr ''23''"
    by (simp add: ex_os_short_def ex_os_def)
  have l: "0 < length ''23''" "length ''23'' < (5 :: nat)" by simp_all
  from short_read_is_terminal [OF c p l] c p show ?thesis
    by (simp add: int_of_ssize_def)
qed

subsection \<open>What the parser builds\<close>

lemma CLAMP_bounds: "m \<le> M \<Longrightarrow> m \<le> CLAMP x m M \<and> CLAMP x m M \<le> M"
  by (simp add: CLAMP_def MIN_macro_def MAX_macro_def)

lemma CLAMP_eq: "m \<le> M \<Longrightarrow> CLAMP x m M = min M (max x m)"
  by (simp add: CLAMP_def MIN_macro_def MAX_macro_def)

lemma try_parse_bounds:
  assumes "try_parse_line_offsets env line = Some (p, s, l)"
  shows "\<exists>sz. sys_stat env p = Some sz \<and> 1 \<le> sz \<and> 0 \<le> s \<and> s \<le> sz - 1 \<and> 1 \<le> l \<and> l \<le> sz - s"
proof -
  from assms obtain sz s0 l0 where st: "sys_stat env p = Some sz" and sz: "1 \<le> sz"
    and s: "s = CLAMP s0 0 (sz - 1)" and l: "l = CLAMP l0 1 (sz - s)"
    unfolding try_parse_line_offsets_def Let_def
    by (auto split: if_splits option.splits prod.splits)
  have sb: "0 \<le> s \<and> s \<le> sz - 1" unfolding s using sz by (intro CLAMP_bounds) simp
  then have "1 \<le> l \<and> l \<le> sz - s" unfolding l by (intro CLAMP_bounds) simp
  with st sz sb show ?thesis by blast
qed

lemma fgets_length:
  "fgets n s = (buf, rest) \<Longrightarrow> length buf + length rest = length s \<and> (0 < n \<longrightarrow> s \<noteq> [] \<longrightarrow> buf \<noteq> [])"
proof (induction s arbitrary: n buf rest)
  case Nil
  then show ?case by simp
next
  case (Cons c s)
  show ?case
  proof (cases "n = 0 \<or> c = CHR 0x0A")
    case True
    with Cons.prems show ?thesis by (auto split: if_splits)
  next
    case False
    obtain l r where lr: "fgets (n - 1) s = (l, r)" by (cases "fgets (n - 1) s")
    with Cons.prems False have "buf = c # l" "rest = r" by auto
    with Cons.IH [OF lr] show ?thesis by simp
  qed
qed

lemma fgets_shorter:
  assumes "stream \<noteq> []" and "fgets PATH_MAX stream = (buf, rest)"
  shows "length rest < length stream"
proof -
  have "0 < PATH_MAX" by (simp add: PATH_MAX_def)
  with fgets_length [OF assms(2)] assms(1) have "buf \<noteq> []" by simp
  with fgets_length [OF assms(2)] show ?thesis by (cases buf) auto
qed

lemma parse_lines_Nil: "parse_lines env fd bd [] rv = Returns rv"
  by (simp add: parse_lines.simps)

lemma parse_lines_step:
  assumes "stream \<noteq> []" and "fgets PATH_MAX stream = (buf, rest)"
  shows "parse_lines env fd bd stream rv =
     (if c_str buf = [] then Fault
      else (case try_parse_line_offsets env (resolve bd (butlast (c_str buf))) of
              None \<Rightarrow> parse_lines env fd bd rest rv
            | Some (path, start, len) \<Rightarrow>
                if fd \<ge> 0 then
                  parse_lines env fd bd rest
                    (rv\<lparr>cf_fsize := cf_fsize rv + len,
                        chunks := chunks rv @
                          [\<lparr>chunk_fd = sys_open_rdonly env (length (chunks rv)) path,
                            startOffset = start, chunk_fsize = len\<rparr>]\<rparr>)
                else parse_lines env fd bd rest (rv\<lparr>cf_fsize := cf_fsize rv + len\<rparr>)))"
  using assms by (subst parse_lines.simps) (simp add: Let_def split: option.splits)

lemma parse_lines_ok:
  assumes "0 \<le> fd" and "chunks_ok rv" and "parse_lines env fd bd stream rv = Returns rv'"
  shows "chunks_ok rv' \<and> cf_fd rv' = cf_fd rv"
  using assms
proof (induction stream arbitrary: rv rule: length_induct)
  case (1 stream)
  show ?case
  proof (cases "stream = []")
    case True
    with "1.prems" show ?thesis by (simp add: parse_lines_Nil)
  next
    case False
    obtain buf rest where f: "fgets PATH_MAX stream = (buf, rest)" by (cases "fgets PATH_MAX stream")
    have len: "length rest < length stream" using fgets_shorter [OF False f] .
    note st = parse_lines_step [OF False f, of env fd bd rv]
    have nz: "c_str buf \<noteq> []"
      using "1.prems"(3) unfolding st by (auto split: if_splits)
    let ?t = "resolve bd (butlast (c_str buf))"
    show ?thesis
    proof (cases "try_parse_line_offsets env ?t")
      case None
      then have "parse_lines env fd bd rest rv = Returns rv'"
        using "1.prems"(3) nz unfolding st by simp
      with "1.IH" len "1.prems"(1,2) show ?thesis by blast
    next
      case (Some a)
      obtain p s l where a: "a = (p, s, l)" by (cases a)
      from try_parse_bounds [OF Some [unfolded a]] have sl: "0 \<le> s" "1 \<le> l" by auto
      let ?rv2 = "rv\<lparr>cf_fsize := cf_fsize rv + l, chunks := chunks rv @
          [\<lparr>chunk_fd = sys_open_rdonly env (length (chunks rv)) p, startOffset = s, chunk_fsize = l\<rparr>]\<rparr>"
      have ok: "chunks_ok ?rv2" using "1.prems"(2) sl by (auto simp: chunks_ok_def total_def)
      have "parse_lines env fd bd rest ?rv2 = Returns rv'"
        using "1.prems"(1,3) nz Some a unfolding st by simp
      with "1.IH" len "1.prems"(1) ok have "chunks_ok rv' \<and> cf_fd rv' = cf_fd ?rv2" by blast
      then show ?thesis by simp
    qed
  qed
qed

lemma open_concat_file_ok:
  assumes "open_concat_file env fd path = Returns (Some cf)" and "0 \<le> fd"
  shows "chunks_ok cf \<and> cf_fd cf = fd"
proof -
  let ?rv0 = "\<lparr>chunks = [], cf_fd = fd, cf_fsize = 0, refcount = 1\<rparr>"
  from assms obtain stream where "parse_lines env fd (dirname path) stream ?rv0 = Returns cf"
    unfolding open_concat_file_def
    by (auto split: option.splits if_splits outcome.splits)
  moreover have "chunks_ok ?rv0" by (simp add: chunks_ok_def total_def)
  ultimately show ?thesis using parse_lines_ok [OF assms(2)] by fastforce
qed

subsection \<open>Reads inside the virtual file\<close>

lemma length_slice: "backed env data c \<Longrightarrow> int (length (slice data c)) = chunk_fsize c"
  by (auto simp: backed_def full_reads_def slice_def)

lemma length_virtual_bytes:
  "\<forall>c\<in>set cs. backed env data c \<Longrightarrow> int (length (virtual_bytes data cs)) = total cs"
  by (induction cs) (auto simp: virtual_bytes_def total_def length_slice)

lemma skip_chunks_drop:
  assumes "\<forall>c\<in>set cs. backed env data c" and "0 \<le> offset" and "offset \<le> total cs"
    and "skip_chunks cs offset = (cs', offset')"
  shows "(\<forall>c\<in>set cs'. backed env data c) \<and> 0 \<le> offset' \<and> offset' \<le> total cs' \<and>
         total cs - offset = total cs' - offset' \<and>
         (cs' \<noteq> [] \<longrightarrow> offset' \<le> chunk_fsize (hd cs')) \<and>
         drop (nat offset) (virtual_bytes data cs) = drop (nat offset') (virtual_bytes data cs')"
  using assms
proof (induction cs arbitrary: offset)
  case Nil
  then show ?case by simp
next
  case (Cons c cs)
  show ?case
  proof (cases "offset > chunk_fsize c")
    case True
    have b: "backed env data c" using Cons.prems(1) by simp
    have l: "int (length (slice data c)) = chunk_fsize c" by (rule length_slice [OF b])
    have t: "total (c # cs) = chunk_fsize c + total cs" by (simp add: total_def)
    have s: "skip_chunks cs (offset - chunk_fsize c) = (cs', offset')"
      using Cons.prems(4) True by simp
    have ih: "(\<forall>c\<in>set cs'. backed env data c) \<and> 0 \<le> offset' \<and> offset' \<le> total cs' \<and>
         total cs - (offset - chunk_fsize c) = total cs' - offset' \<and>
         (cs' \<noteq> [] \<longrightarrow> offset' \<le> chunk_fsize (hd cs')) \<and>
         drop (nat (offset - chunk_fsize c)) (virtual_bytes data cs) = drop (nat offset') (virtual_bytes data cs')"
      using Cons.prems(1-3) True b t
      by (intro Cons.IH [OF _ _ _ s]) (auto simp: backed_def full_reads_def)
    have "drop (nat offset) (virtual_bytes data (c # cs)) =
          drop (nat offset - length (slice data c)) (virtual_bytes data cs)"
      using l True b by (simp add: virtual_bytes_def backed_def full_reads_def)
    also have "nat offset - length (slice data c) = nat (offset - chunk_fsize c)"
      using l by linarith
    finally show ?thesis using ih t by simp
  next
    case False
    with Cons.prems show ?thesis by auto
  qed
qed

lemma size_t_of_id: "0 \<le> x \<Longrightarrow> x < 2 ^ 64 \<Longrightarrow> size_t_of x = nat x"
  by (simp add: size_t_of_def)

lemma slice_drop:
  assumes "backed env data c" and "0 \<le> offset" and "offset \<le> chunk_fsize c"
  shows "drop (nat offset) (slice data c) =
         take (nat (chunk_fsize c - offset)) (drop (nat (offset + startOffset c)) (data (chunk_fd c)))"
proof -
  have "nat (chunk_fsize c) - nat offset = nat (chunk_fsize c - offset)"
    using assms by linarith
  moreover have "nat offset + nat (startOffset c) = nat (offset + startOffset c)"
    using assms by (simp add: backed_def full_reads_def nat_add_distrib)
  ultimately show ?thesis
    by (simp add: slice_def drop_take)
qed

lemma length_slice_drop:
  assumes "backed env data c" and "0 \<le> offset" and "offset \<le> chunk_fsize c"
  shows "length (drop (nat offset) (slice data c)) = nat (chunk_fsize c - offset)"
  using length_slice [OF assms(1)] assms(2,3) by simp

lemma rem_size_t:
  assumes "backed env data c" and "0 \<le> offset" and "offset \<le> chunk_fsize c"
  shows "size_t_of (chunk_fsize c - offset) = nat (chunk_fsize c - offset)"
proof -
  have "chunk_fsize c \<le> OFF_T_MAX" using assms(1) by (simp add: backed_def full_reads_def)
  then have "chunk_fsize c - offset < 2 ^ 64" using assms(2) by (simp add: OFF_T_MAX_def)
  then show ?thesis using assms(3) by (simp add: size_t_of_id)
qed

lemma read_chunks_data:
  assumes "\<forall>c\<in>set cs. backed env data c" and "0 \<le> offset"
    and "cs \<noteq> [] \<longrightarrow> offset \<le> chunk_fsize (hd cs)"
    and "offset + int count \<le> total cs"
  shows "ret (read_chunks env cs count offset br buf tr) = int_of_ssize (br + int count) \<and>
         out (read_chunks env cs count offset br buf tr) =
           buf @ take count (drop (nat offset) (virtual_bytes data cs))"
  using assms
proof (induction cs arbitrary: count offset br buf tr)
  case Nil
  then have "count = 0" by (simp add: total_def)
  then show ?case by (simp add: virtual_bytes_def)
next
  case (Cons c cs)
  have b: "backed env data c" using Cons.prems(1) by simp
  have o: "offset \<le> chunk_fsize c" using Cons.prems(3) by simp
  define n where "n = nat (chunk_fsize c - offset)"
  define pos where "pos = offset + startOffset c"
  define bytes where "bytes = drop (nat pos) (data (chunk_fd c))"
  have ni: "chunk_fsize c - offset = int n" using o by (simp add: n_def)
  have sz: "size_t_of (int n) = n"
    using rem_size_t [OF b Cons.prems(2) o] o by (simp add: n_def)
  have sd: "drop (nat offset) (slice data c) = take n bytes"
    using slice_drop [OF b Cons.prems(2) o] by (simp add: n_def pos_def bytes_def)
  have ld: "length (take n bytes) = n"
    using length_slice_drop [OF b Cons.prems(2) o] sd by (simp add: n_def)
  have vb: "drop (nat offset) (virtual_bytes data (c # cs)) = take n bytes @ virtual_bytes data cs"
    using length_slice [OF b] o Cons.prems(2) sd by (simp add: virtual_bytes_def)
  have pr: "sys_pread env k (chunk_fd c) m pos = Inr (take m bytes)" if "m \<le> n" for k m
  proof -
    have "startOffset c \<le> pos \<and> pos + int m \<le> startOffset c + chunk_fsize c"
      using that ni Cons.prems(2) by (simp add: pos_def)
    then show ?thesis using b unfolding backed_def full_reads_def bytes_def by blast
  qed
  have step: "read_chunks env (c # cs) count offset br buf tr =
     (if count > n then
        (case sys_pread env (length tr) (chunk_fd c) n pos of
              Inl e \<Rightarrow> \<lparr>ret = - e, out = buf, calls = tr @ [(chunk_fd c, n, pos)]\<rparr>
            | Inr bs \<Rightarrow>
                if int (length bs) = int n then
                  read_chunks env cs (count - length bs) 0
                    (br + int (length bs)) (buf @ bs) (tr @ [(chunk_fd c, n, pos)])
                else if length bs > 0 then
                  \<lparr>ret = int_of_ssize (br + int (length bs)),
                   out = buf @ bs, calls = tr @ [(chunk_fd c, n, pos)]\<rparr>
                else \<lparr>ret = - errno0 env, out = buf, calls = tr @ [(chunk_fd c, n, pos)]\<rparr>)
      else if count > 0 then
        (case sys_pread env (length tr) (chunk_fd c) count pos of
              Inl e \<Rightarrow> \<lparr>ret = - e, out = buf, calls = tr @ [(chunk_fd c, count, pos)]\<rparr>
            | Inr bs \<Rightarrow>
                \<lparr>ret = int_of_ssize (br + int (length bs)),
                 out = buf @ bs, calls = tr @ [(chunk_fd c, count, pos)]\<rparr>)
      else \<lparr>ret = int_of_ssize br, out = buf, calls = tr\<rparr>)"
    by (simp only: read_chunks.simps ni sz Let_def pos_def)
  show ?case
  proof (cases "count > n")
    case True
    have t: "0 + int (count - n) \<le> total cs"
      using Cons.prems(4) True ni by (simp add: total_def)
    have h: "cs \<noteq> [] \<longrightarrow> 0 \<le> chunk_fsize (hd cs)"
      using Cons.prems(1) by (cases cs) (auto simp: backed_def full_reads_def)
    have ih: "ret (read_chunks env cs (count - n) 0 (br + int n) (buf @ take n bytes)
                 (tr @ [(chunk_fd c, n, pos)])) =
         int_of_ssize (br + int n + int (count - n)) \<and>
         out (read_chunks env cs (count - n) 0 (br + int n) (buf @ take n bytes)
                 (tr @ [(chunk_fd c, n, pos)])) =
           (buf @ take n bytes) @ take (count - n) (drop (nat 0) (virtual_bytes data cs))"
      using Cons.prems(1) h t by (intro Cons.IH) simp_all
    have e: "read_chunks env (c # cs) count offset br buf tr =
          read_chunks env cs (count - n) 0 (br + int n) (buf @ take n bytes)
            (tr @ [(chunk_fd c, n, pos)])"
      unfolding step using True pr [of n] ld by simp
    have "take count (drop (nat offset) (virtual_bytes data (c # cs))) =
          take n bytes @ take (count - n) (virtual_bytes data cs)"
      unfolding vb using ld True by simp
    moreover have "br + int n + int (count - n) = br + int count"
      using True by simp
    ultimately show ?thesis unfolding e using ih by simp
  next
    case False
    show ?thesis
    proof (cases "count > 0")
      case pos: True
      have m: "count \<le> n" using False by simp
      have "take count (drop (nat offset) (virtual_bytes data (c # cs))) =
            take count (take n bytes)"
        unfolding vb using ld m by simp
      also have "\<dots> = take count bytes"
        using m by (simp add: min_def)
      finally have v: "take count (drop (nat offset) (virtual_bytes data (c # cs))) =
        take count bytes" .
      have "length (take count (take n bytes)) = count"
        using ld m by simp
      then have lbs: "length (take count bytes) = count"
        using m by (simp add: min_def)
      have e: "read_chunks env (c # cs) count offset br buf tr =
          \<lparr>ret = int_of_ssize (br + int (length (take count bytes))), out = buf @ take count bytes,
           calls = tr @ [(chunk_fd c, count, pos)]\<rparr>"
        unfolding step using False pos pr [OF m] by simp
      show ?thesis unfolding e v using lbs by simp
    next
      case z: False
      then have "count = 0" by simp
      with False show ?thesis unfolding step by simp
    qed
  qed
qed

lemma int_of_ssize_id: "0 \<le> x \<Longrightarrow> x < 2 ^ 31 \<Longrightarrow> int_of_ssize x = x"
  unfolding int_of_ssize_def
  by (simp add: sint_sbintrunc' signed_take_bit_int_eq_self)

text \<open>
  C1. Let a virtual file be built by a successful parse of a description with backing
  descriptors opened, and let every positional read inside the slice of a chunk deliver
  all the bytes requested from the chunk's backing file. Then a read of \<open>count\<close> bytes at
  a virtual offset with \<open>offset + count \<le> total size\<close> stores exactly \<open>count\<close> bytes: the
  bytes of the concatenation of the chunks' slices, in the order of the description,
  taken from \<open>offset\<close>. The value returned is \<open>count\<close> converted to \<^verbatim>\<open>int\<close>, which is
  \<open>count\<close> itself for every count below \<open>2^31\<close>.
\<close>

theorem read_concat_file_bytes:
  assumes "open_concat_file env fd path = Returns (Some cf)" and "0 \<le> fd"
    and "open_files_find open_files fd = Some cf"
    and "\<forall>c\<in>set (chunks cf). full_reads env data c"
    and "0 \<le> offset" and "offset + int count \<le> cf_fsize cf"
  shows "out (read_concat_file env open_files fd count offset) =
           take count (drop (nat offset) (virtual_bytes data (chunks cf))) \<and>
         length (out (read_concat_file env open_files fd count offset)) = count \<and>
         ret (read_concat_file env open_files fd count offset) = int_of_ssize (int count) \<and>
         (count < 2 ^ 31 \<longrightarrow> ret (read_concat_file env open_files fd count offset) = int count)"
proof -
  let ?r = "read_concat_file env open_files fd count offset"
  from open_concat_file_ok [OF assms(1,2)] have ok: "chunks_ok cf" by simp
  then have b: "\<forall>c\<in>set (chunks cf). backed env data c"
    using assms(4) by (simp add: chunks_ok_def backed_def)
  have t: "cf_fsize cf = total (chunks cf)" using ok by (simp add: chunks_ok_def)
  obtain cs off where sk: "skip_chunks (chunks cf) offset = (cs, off)"
    by (cases "skip_chunks (chunks cf) offset")
  have le: "offset \<le> total (chunks cf)" using assms(6) t by simp
  from skip_chunks_drop [OF b assms(5) le sk]
  have b': "\<forall>c\<in>set cs. backed env data c" and o0: "0 \<le> off"
    and tt: "total (chunks cf) - offset = total cs - off"
    and hd: "cs \<noteq> [] \<longrightarrow> off \<le> chunk_fsize (hd cs)"
    and dr: "drop (nat offset) (virtual_bytes data (chunks cf)) = drop (nat off) (virtual_bytes data cs)"
    by simp_all
  have c: "off + int count \<le> total cs" using assms(6) t tt by simp
  have e: "?r = read_chunks env cs count off 0 [] []"
    using assms(3,6) sk by (simp add: read_concat_file_def)
  from read_chunks_data [OF b' o0 hd c, of 0 "[]" "[]"]
  have r: "ret ?r = int_of_ssize (int count)"
    and o: "out ?r = take count (drop (nat offset) (virtual_bytes data (chunks cf)))"
    unfolding e dr by simp_all
  have "int (length (drop (nat off) (virtual_bytes data cs))) = total cs - off"
    using length_virtual_bytes [OF b'] o0 c by simp
  then have l: "length (out ?r) = count" unfolding o dr using c by simp
  show ?thesis using r o l int_of_ssize_id [of "int count"] by simp
qed

lemma ex_parse: "open_concat_file ex_os 3 ''/s//m-concat-x'' = Returns (Some ex_cf)"
  by code_simp

theorem read_concat_file_bytes_witness:
  "open_concat_file ex_os 3 ''/s//m-concat-x'' = Returns (Some ex_cf) \<and> (0 :: int) \<le> 3 \<and>
   open_files_find [ex_cf] 3 = Some ex_cf \<and>
   full_reads ex_os (\<lambda>fd. ''0123456789'') (chunks ex_cf ! 0) \<and>
   full_reads ex_os (\<lambda>fd. ''0123456789'') (chunks ex_cf ! 1) \<and>
   (0 :: int) \<le> 3 \<and> 3 + int 4 \<le> cf_fsize ex_cf \<and>
   out (read_concat_file ex_os [ex_cf] 3 4 3) = ''5678'' \<and>
   ret (read_concat_file ex_os [ex_cf] 3 4 3) = 4"
proof -
  note p = ex_parse
  have f: "open_files_find [ex_cf] 3 = Some ex_cf"
    by (simp add: ex_cf_def)
  have r: "\<forall>c\<in>set (chunks ex_cf). full_reads ex_os (\<lambda>fd. ''0123456789'') c"
    by (simp add: ex_cf_def full_reads_def ex_os_def OFF_T_MAX_def)
  have s: "3 + int 4 \<le> cf_fsize ex_cf"
    by (simp add: ex_cf_def)
  have v: "take 4 (drop (nat 3) (virtual_bytes (\<lambda>fd. ''0123456789'') (chunks ex_cf))) = ''5678''"
    by (simp add: virtual_bytes_def slice_def ex_cf_def)
  have r': "full_reads ex_os (\<lambda>fd. ''0123456789'') (chunks ex_cf ! 0)"
    "full_reads ex_os (\<lambda>fd. ''0123456789'') (chunks ex_cf ! 1)"
    using r by (simp_all add: ex_cf_def)
  from read_concat_file_bytes [OF p _ f r _ s] p f r' s show ?thesis
    unfolding v by simp
qed

subsection \<open>Reads at and after the end\<close>

lemma read_past_end:
  assumes "open_files_find open_files fd = Some cf" and "offset > cf_fsize cf"
  shows "read_concat_file env open_files fd count offset = \<lparr>ret = 0, out = [], calls = []\<rparr>"
  using assms by (simp add: read_concat_file_def)

lemma int_of_ssize_0: "int_of_ssize 0 = 0"
  by (simp add: int_of_ssize_def)

lemma total_pos:
  "\<forall>c\<in>set cs. 1 \<le> chunk_fsize c \<Longrightarrow> 0 \<le> total cs \<and> (total cs = 0 \<longrightarrow> cs = [])"
  by (induction cs) (auto simp: total_def)

lemma read_chunks_at_end:
  assumes "\<forall>c\<in>set cs. 1 \<le> chunk_fsize c \<and> (\<forall>k pos. sys_pread env k (chunk_fd c) 0 pos = Inr [])"
    and "offset = total cs" and "cs \<noteq> [] \<longrightarrow> offset \<le> chunk_fsize (hd cs)"
  shows "ret (read_chunks env cs count offset 0 [] tr) = 0 \<and>
         out (read_chunks env cs count offset 0 [] tr) = []"
proof (cases cs)
  case Nil
  then show ?thesis by (simp add: int_of_ssize_0)
next
  case (Cons c cs')
  have one: "\<forall>c\<in>set cs'. 1 \<le> chunk_fsize c" using assms(1) Cons by simp
  have "total cs = chunk_fsize c + total cs'" using Cons by (simp add: total_def)
  with total_pos [OF one] assms(2,3) Cons have e: "cs' = []" and o: "offset = chunk_fsize c"
    by auto
  have z: "size_t_of 0 = 0" by (simp add: size_t_of_def)
  have p: "sys_pread env k (chunk_fd c) 0 pos = Inr []" for k pos
    using assms(1) Cons by simp
  show ?thesis unfolding Cons e o
    by (simp add: z p int_of_ssize_0 Let_def)
qed

lemma skip_chunks_total:
  assumes "\<forall>c\<in>set cs. 1 \<le> chunk_fsize c" and "offset \<le> total cs"
    and "skip_chunks cs offset = (cs', offset')"
  shows "set cs' \<subseteq> set cs \<and> total cs - offset = total cs' - offset' \<and>
         (cs' \<noteq> [] \<longrightarrow> offset' \<le> chunk_fsize (hd cs'))"
  using assms
proof (induction cs arbitrary: offset)
  case Nil
  then show ?case by simp
next
  case (Cons c cs)
  show ?case
  proof (cases "offset > chunk_fsize c")
    case True
    have "skip_chunks cs (offset - chunk_fsize c) = (cs', offset')"
      using Cons.prems(3) True by simp
    from Cons.IH [OF _ _ this] Cons.prems(1,2) show ?thesis
      by (auto simp: total_def)
  next
    case False
    with Cons.prems show ?thesis by auto
  qed
qed

lemma read_at_end:
  assumes "open_files_find open_files fd = Some cf" and "chunks_ok cf"
    and "\<forall>c\<in>set (chunks cf). \<forall>k pos. sys_pread env k (chunk_fd c) 0 pos = Inr []"
    and "offset = cf_fsize cf"
  shows "ret (read_concat_file env open_files fd count offset) = 0 \<and>
         out (read_concat_file env open_files fd count offset) = []"
proof -
  obtain cs off where sk: "skip_chunks (chunks cf) offset = (cs, off)"
    by (cases "skip_chunks (chunks cf) offset")
  have one: "\<forall>c\<in>set (chunks cf). 1 \<le> chunk_fsize c"
    and t: "offset = total (chunks cf)"
    using assms(2,4) by (simp_all add: chunks_ok_def)
  from skip_chunks_total [OF one _ sk] t
  have sub: "set cs \<subseteq> set (chunks cf)" and o: "off = total cs"
    and h: "cs \<noteq> [] \<longrightarrow> off \<le> chunk_fsize (hd cs)" by auto
  have a: "\<forall>c\<in>set cs. 1 \<le> chunk_fsize c \<and> (\<forall>k pos. sys_pread env k (chunk_fd c) 0 pos = Inr [])"
    using sub one assms(3) by blast
  from read_chunks_at_end [OF a o h, of count "[]"] assms(1,4) sk
  show ?thesis by (simp add: read_concat_file_def)
qed

lemma ex_unopened_parse:
  "open_concat_file ex_os_unopened 3 ''/s//m-concat-x'' = Returns (Some ex_cf_unopened)"
  by code_simp

text \<open>
  C2. A read at a virtual offset greater than the total size returns 0 and stores nothing
  (\<open>read_past_end\<close>). At the offset equal to the total size the test
  \<^verbatim>\<open>offset > cf->fsize\<close> lets the read go on: with a positive count it issues a
  positional read of zero bytes against the last chunk, and returns 0 only when that read
  succeeds (\<open>read_at_end\<close>). Here the backing files could not be opened when the
  description was parsed, the chunks hold the descriptor \<open>-1\<close>, and the read of one
  byte at the total size returns the negated error of the positional read instead of 0.
\<close>

theorem read_at_total_size_fails:
  "open_concat_file ex_os_unopened 3 ''/s//m-concat-x'' = Returns (Some ex_cf_unopened) \<and>
   open_files_find [ex_cf_unopened] 3 = Some ex_cf_unopened \<and>
   read_concat_file ex_os_unopened [ex_cf_unopened] 3 1 (cf_fsize ex_cf_unopened) =
     \<lparr>ret = - EBADF, out = [], calls = [(- 1, 0, 10)]\<rparr>"
proof -
  note ex_unopened_parse
  moreover have "read_concat_file ex_os_unopened [ex_cf_unopened] 3 1 (cf_fsize ex_cf_unopened) =
     \<lparr>ret = - EBADF, out = [], calls = [(- 1, 0, 10)]\<rparr>"
    by (simp add: read_concat_file_def ex_cf_unopened_def ex_os_unopened_def ex_os_def size_t_of_def)
  ultimately show ?thesis by (simp add: ex_cf_unopened_def)
qed

subsection \<open>Backing files that cannot be opened\<close>

lemma total_append: "total (a @ b) = total a + total b"
  by (simp add: total_def)

lemma parse_lines_extends:
  assumes "0 \<le> fd" and "parse_lines env fd bd stream rv = Returns rv'"
  shows "\<exists>more. chunks rv' = chunks rv @ more \<and> cf_fsize rv' = cf_fsize rv + total more"
  using assms
proof (induction stream arbitrary: rv rule: length_induct)
  case (1 stream)
  show ?case
  proof (cases "stream = []")
    case True
    with "1.prems" show ?thesis by (simp add: parse_lines_Nil total_def)
  next
    case False
    obtain buf rest where f: "fgets PATH_MAX stream = (buf, rest)" by (cases "fgets PATH_MAX stream")
    have len: "length rest < length stream" using fgets_shorter [OF False f] .
    note st = parse_lines_step [OF False f, of env fd bd rv]
    have nz: "c_str buf \<noteq> []"
      using "1.prems"(2) unfolding st by (auto split: if_splits)
    show ?thesis
    proof (cases "try_parse_line_offsets env (resolve bd (butlast (c_str buf)))")
      case None
      then have "parse_lines env fd bd rest rv = Returns rv'"
        using "1.prems"(2) nz unfolding st by simp
      with "1.IH" len "1.prems"(1) show ?thesis by blast
    next
      case (Some a)
      obtain p s l where a: "a = (p, s, l)" by (cases a)
      let ?c = "\<lparr>chunk_fd = sys_open_rdonly env (length (chunks rv)) p, startOffset = s, chunk_fsize = l\<rparr>"
      let ?rv2 = "rv\<lparr>cf_fsize := cf_fsize rv + l, chunks := chunks rv @ [?c]\<rparr>"
      have "parse_lines env fd bd rest ?rv2 = Returns rv'"
        using "1.prems"(1,2) nz Some a unfolding st by simp
      with "1.IH" len "1.prems"(1) obtain more where
        "chunks rv' = chunks ?rv2 @ more \<and> cf_fsize rv' = cf_fsize ?rv2 + total more" by blast
      then have "chunks rv' = chunks rv @ (?c # more) \<and> cf_fsize rv' = cf_fsize rv + total (?c # more)"
        by (simp add: total_def)
      then show ?thesis by blast
    qed
  qed
qed

text \<open>
  C8 (as the code has it). During a parse with backing descriptors opened, a line whose
  path stats with a size of at least 1 yields a chunk whatever \<^verbatim>\<open>open\<close> returns for
  the backing file: when the open fails, the chunk is appended with the descriptor the
  open returned, a negative value, and its length is part of the total size.
\<close>

theorem unopened_segment_is_kept:
  assumes "stream \<noteq> []" and "fgets PATH_MAX stream = (buf, rest)" and "c_str buf \<noteq> []"
    and "try_parse_line_offsets env (resolve bd (butlast (c_str buf))) = Some (p, s, l)"
    and "0 \<le> fd" and "sys_open_rdonly env (length (chunks rv)) p < 0"
    and "parse_lines env fd bd stream rv = Returns rv'"
  shows "\<exists>more. chunks rv' = chunks rv @
            \<lparr>chunk_fd = sys_open_rdonly env (length (chunks rv)) p,
             startOffset = s, chunk_fsize = l\<rparr> # more \<and>
          cf_fsize rv' = cf_fsize rv + l + total more"
proof -
  let ?c = "\<lparr>chunk_fd = sys_open_rdonly env (length (chunks rv)) p, startOffset = s, chunk_fsize = l\<rparr>"
  let ?rv2 = "rv\<lparr>cf_fsize := cf_fsize rv + l, chunks := chunks rv @ [?c]\<rparr>"
  have "parse_lines env fd bd rest ?rv2 = Returns rv'"
    using assms(3,4,5,7) unfolding parse_lines_step [OF assms(1,2)] by simp
  from parse_lines_extends [OF assms(5) this] show ?thesis by auto
qed

theorem unopened_segment_is_kept_witness:
  "ex_line \<noteq> [] \<and> fgets PATH_MAX ex_line = (ex_line, []) \<and> c_str ex_line \<noteq> [] \<and>
   try_parse_line_offsets ex_os_unopened (resolve ''/s'' (butlast (c_str ex_line))) = Some (''/s/a'', 2, 5) \<and>
   (0 :: int) \<le> 3 \<and> sys_open_rdonly ex_os_unopened (length (chunks ex_rv0)) ''/s/a'' < 0 \<and>
   parse_lines ex_os_unopened 3 ''/s'' ex_line ex_rv0 =
     Returns \<lparr>chunks = [\<lparr>chunk_fd = - 1, startOffset = 2, chunk_fsize = 5\<rparr>],
              cf_fd = 3, cf_fsize = 5, refcount = 1\<rparr> \<and>
   (\<exists>more. chunks \<lparr>chunks = [\<lparr>chunk_fd = - 1, startOffset = 2, chunk_fsize = 5\<rparr>],
              cf_fd = 3, cf_fsize = 5, refcount = 1\<rparr> = chunks ex_rv0 @
            \<lparr>chunk_fd = sys_open_rdonly ex_os_unopened (length (chunks ex_rv0)) ''/s/a'',
             startOffset = 2, chunk_fsize = 5\<rparr> # more \<and>
          cf_fsize \<lparr>chunks = [\<lparr>chunk_fd = - 1, startOffset = 2, chunk_fsize = 5\<rparr>],
              cf_fd = 3, cf_fsize = 5, refcount = 1\<rparr> = cf_fsize ex_rv0 + 5 + total more)"
proof -
  have a: "ex_line \<noteq> []" by (simp add: ex_line_def)
  have b: "fgets PATH_MAX ex_line = (ex_line, [])" by code_simp
  have c: "c_str ex_line \<noteq> []" by code_simp
  have d: "try_parse_line_offsets ex_os_unopened (resolve ''/s'' (butlast (c_str ex_line))) = Some (''/s/a'', 2, 5)"
    by code_simp
  have e: "sys_open_rdonly ex_os_unopened (length (chunks ex_rv0)) ''/s/a'' < 0"
    by (simp add: ex_os_unopened_def)
  have f: "parse_lines ex_os_unopened 3 ''/s'' ex_line ex_rv0 =
     Returns \<lparr>chunks = [\<lparr>chunk_fd = - 1, startOffset = 2, chunk_fsize = 5\<rparr>],
              cf_fd = 3, cf_fsize = 5, refcount = 1\<rparr>"
    by code_simp
  from unopened_segment_is_kept [OF a b c d _ e f] a b c d e f show ?thesis
    by simp
qed

text \<open>
  C8 as stated, with the segment skipped, fails: \<^verbatim>\<open>stat\<close> gives \<open>/s/a\<close> ten
  bytes, both opens of it fail, and the object has both chunks and the total size 8.
\<close>

theorem unopened_segment_counterexample:
  "sys_stat ex_os_unopened ''/s/a'' = Some 10 \<and>
   sys_open_rdonly ex_os_unopened 0 ''/s/a'' = - 1 \<and>
   sys_open_rdonly ex_os_unopened 1 ''/s/a'' = - 1 \<and>
   open_concat_file ex_os_unopened 3 ''/s//m-concat-x'' =
     Returns (Some \<lparr>chunks = [\<lparr>chunk_fd = - 1, startOffset = 2, chunk_fsize = 5\<rparr>,
                                \<lparr>chunk_fd = - 1, startOffset = 7, chunk_fsize = 3\<rparr>],
                     cf_fd = 3, cf_fsize = 8, refcount = 1\<rparr>)"
  using ex_unopened_parse by (simp add: ex_os_unopened_def ex_os_def ex_cf_unopened_def)

subsection \<open>The size-only parse\<close>

lemma parse_lines_sizes:
  assumes "cf_fsize rv1 = cf_fsize rv2"
  shows "map_outcome cf_fsize (parse_lines env fd1 bd stream rv1) =
         map_outcome cf_fsize (parse_lines env fd2 bd stream rv2)"
  using assms
proof (induction stream arbitrary: rv1 rv2 rule: length_induct)
  case (1 stream)
  show ?case
  proof (cases "stream = []")
    case True
    with "1.prems" show ?thesis by (simp add: parse_lines_Nil)
  next
    case False
    obtain buf rest where f: "fgets PATH_MAX stream = (buf, rest)" by (cases "fgets PATH_MAX stream")
    have len: "length rest < length stream" using fgets_shorter [OF False f] .
    have ih: "map_outcome cf_fsize (parse_lines env fd1 bd rest a) =
              map_outcome cf_fsize (parse_lines env fd2 bd rest b)" if "cf_fsize a = cf_fsize b" for a b
      using "1.IH" len that by blast
    show ?thesis
      unfolding parse_lines_step [OF False f]
      using "1.prems" by (auto split: option.splits intro!: ih)
  qed
qed

lemma try_parse_open_irrelevant:
  "try_parse_line_offsets (env\<lparr>sys_open_rdonly := f\<rparr>) line = try_parse_line_offsets env line"
  by (simp add: try_parse_line_offsets_def)

lemma parse_lines_size_only:
  assumes "fd < 0"
  shows "parse_lines (env\<lparr>sys_open_rdonly := f\<rparr>) fd bd stream rv = parse_lines env fd bd stream rv \<and>
         (\<forall>rv'. parse_lines env fd bd stream rv = Returns rv' \<longrightarrow> chunks rv' = chunks rv)"
proof (induction stream arbitrary: rv rule: length_induct)
  case (1 stream)
  show ?case
  proof (cases "stream = []")
    case True
    then show ?thesis by (simp add: parse_lines_Nil)
  next
    case False
    obtain buf rest where f: "fgets PATH_MAX stream = (buf, rest)" by (cases "fgets PATH_MAX stream")
    have len: "length rest < length stream" using fgets_shorter [OF False f] .
    have ih: "parse_lines (env\<lparr>sys_open_rdonly := f\<rparr>) fd bd rest a = parse_lines env fd bd rest a \<and>
         (\<forall>rv'. parse_lines env fd bd rest a = Returns rv' \<longrightarrow> chunks rv' = chunks a)" for a
      using "1.IH" len by blast
    show ?thesis
      unfolding parse_lines_step [OF False f] try_parse_open_irrelevant
      using assms ih by (auto split: option.splits)
  qed
qed

text \<open>
  C5. When the stream opened from the path delivers the text that the stream opened from
  the descriptor delivers, the size-only parse of \<^verbatim>\<open>get_concat_file_size\<close> (descriptor
  \<open>-1\<close>) reports the total size of the object that the parse with backing descriptors
  opened returns; 0 when that parse returns no object. The size-only parse opens no
  backing file: its result does not depend on what \<^verbatim>\<open>open\<close> would return, and its
  object has no chunk.
\<close>

theorem size_only_parse_agrees:
  assumes "0 \<le> fd" and "fdopen_dup_r env fd = fopen_r env path"
  shows "get_concat_file_size env path =
           (case open_concat_file env fd path of
              Fault \<Rightarrow> Fault
            | Returns None \<Rightarrow> Returns 0
            | Returns (Some cf) \<Rightarrow> Returns (cf_fsize cf)) \<and>
         get_concat_file_size (env\<lparr>sys_open_rdonly := f\<rparr>) path = get_concat_file_size env path \<and>
         (\<forall>c. open_concat_file env (- 1) path = Returns (Some c) \<longrightarrow> chunks c = [])"
proof -
  let ?rv = "\<lambda>d. \<lparr>chunks = [], cf_fd = d, cf_fsize = 0, refcount = 1\<rparr>"
  have s: "map_outcome cf_fsize (parse_lines env (- 1) (dirname path) stream (?rv (- 1))) =
           map_outcome cf_fsize (parse_lines env fd (dirname path) stream (?rv fd))" for stream
    by (rule parse_lines_sizes) simp
  have a: "get_concat_file_size env path =
           (case open_concat_file env fd path of
              Fault \<Rightarrow> Fault
            | Returns None \<Rightarrow> Returns 0
            | Returns (Some cf) \<Rightarrow> Returns (cf_fsize cf))"
  proof (cases "fopen_r env path")
    case None
    with assms show ?thesis by (simp add: get_concat_file_size_def open_concat_file_def)
  next
    case (Some stream)
    show ?thesis
    proof (cases "length path > PATH_MAX")
      case True
      with Some assms show ?thesis by (simp add: get_concat_file_size_def open_concat_file_def)
    next
      case False
      from s [of stream] Some assms False show ?thesis
        by (auto simp: get_concat_file_size_def open_concat_file_def split: outcome.splits)
    qed
  qed
  have o: "parse_lines (env\<lparr>sys_open_rdonly := f\<rparr>) (- 1) bd stream rv = parse_lines env (- 1) bd stream rv"
    and c: "parse_lines env (- 1) bd stream rv = Returns rv' \<Longrightarrow> chunks rv' = chunks rv"
    for bd stream rv rv'
    using parse_lines_size_only [where fd = "- 1" and env = env and f = f and bd = bd
        and stream = stream and rv = rv] by simp_all
  have b: "get_concat_file_size (env\<lparr>sys_open_rdonly := f\<rparr>) path = get_concat_file_size env path"
  proof -
    have "open_concat_file (env\<lparr>sys_open_rdonly := f\<rparr>) (- 1) path = open_concat_file env (- 1) path"
      by (cases "fopen_r env path") (simp_all add: open_concat_file_def o)
    then show ?thesis by (simp add: get_concat_file_size_def)
  qed
  have d: "\<forall>c. open_concat_file env (- 1) path = Returns (Some c) \<longrightarrow> chunks c = []"
    by (auto simp: open_concat_file_def split: option.splits if_splits outcome.splits dest: c)
  from a b d show ?thesis by blast
qed

theorem size_only_parse_agrees_witness:
  "(0 :: int) \<le> 3 \<and> fdopen_dup_r ex_os 3 = fopen_r ex_os ''/s//m-concat-x'' \<and>
   open_concat_file ex_os 3 ''/s//m-concat-x'' = Returns (Some ex_cf) \<and>
   get_concat_file_size ex_os ''/s//m-concat-x'' = Returns 8 \<and>
   get_concat_file_size (ex_os\<lparr>sys_open_rdonly := (\<lambda>k p. - 1)\<rparr>) ''/s//m-concat-x'' = Returns 8"
proof -
  have a: "fdopen_dup_r ex_os 3 = fopen_r ex_os ''/s//m-concat-x''"
    by (simp add: ex_os_def)
  from size_only_parse_agrees [OF _ a, of "\<lambda>k p. - 1"] a ex_parse show ?thesis
    by (simp add: ex_cf_def)
qed

subsection \<open>Lines that are ignored\<close>

lemma try_parse_no_stat:
  assumes "sys_stat env (case strchr line CHR '':'' of None \<Rightarrow> line | Some (p, r) \<Rightarrow> p) = None"
  shows "try_parse_line_offsets env line = None"
  using assms by (simp add: try_parse_line_offsets_def Let_def)

lemma try_parse_empty_file:
  assumes "sys_stat env (case strchr line CHR '':'' of None \<Rightarrow> line | Some (p, r) \<Rightarrow> p) = Some sz"
    and "sz < 1"
  shows "try_parse_line_offsets env line = None"
  using assms by (simp add: try_parse_line_offsets_def Let_def)

lemma parse_lines_skip:
  assumes "stream \<noteq> []" and "fgets PATH_MAX stream = (buf, rest)" and "c_str buf \<noteq> []"
    and "try_parse_line_offsets env (resolve bd (butlast (c_str buf))) = None"
  shows "parse_lines env fd bd stream rv = parse_lines env fd bd rest rv"
  using assms(3,4) unfolding parse_lines_step [OF assms(1,2)] by simp

text \<open>
  C3. A line whose path does not stat, or stats with a size below 1, makes
  \<^verbatim>\<open>try_parse_line_offsets\<close> return false (\<open>try_parse_no_stat\<close>,
  \<open>try_parse_empty_file\<close>), and the loop goes on with the object unchanged
  (\<open>parse_lines_skip\<close>). A blank line is not ignored: the path it resolves to is the
  directory of the description followed by a slash, the test \<^verbatim>\<open>line[0] == '\0'\<close> of
  \<^verbatim>\<open>try_parse_line_offsets\<close> looks at that resolved path, and where \<^verbatim>\<open>stat\<close> gives the
  directory a size of at least 1 the line becomes a chunk of that size. Here the
  description is one blank line.
\<close>

theorem blank_line_is_a_segment:
  "fdopen_dup_r ex_os_blank 3 = Some [CHR 0x0A] \<and>
   sys_stat ex_os_blank ''/s/'' = Some 4096 \<and>
   resolve (dirname ''/s//m-concat-x'') [] = ''/s/'' \<and>
   open_concat_file ex_os_blank 3 ''/s//m-concat-x'' =
     Returns (Some \<lparr>chunks = [\<lparr>chunk_fd = 5, startOffset = 0, chunk_fsize = 4096\<rparr>],
                     cf_fd = 3, cf_fsize = 4096, refcount = 1\<rparr>) \<and>
   get_concat_file_size ex_os_blank ''/s//m-concat-x'' = Returns 4096"
proof -
  have "resolve (dirname ''/s//m-concat-x'') [] = ''/s/''"
    by code_simp
  moreover have "open_concat_file ex_os_blank 3 ''/s//m-concat-x'' =
     Returns (Some \<lparr>chunks = [\<lparr>chunk_fd = 5, startOffset = 0, chunk_fsize = 4096\<rparr>],
                     cf_fd = 3, cf_fsize = 4096, refcount = 1\<rparr>)"
    by code_simp
  moreover have "get_concat_file_size ex_os_blank ''/s//m-concat-x'' = Returns 4096"
    by code_simp
  ultimately show ?thesis by (simp add: ex_os_blank_def)
qed

subsection \<open>The final character of a line\<close>

lemma parse_lines_body:
  assumes "stream \<noteq> []" and "fgets PATH_MAX stream = (buf, rest)" and "c_str buf \<noteq> []"
  shows "parse_lines env fd bd stream rv =
         parse_lines env fd bd rest (loop_body env fd (resolve bd (butlast (c_str buf))) rv)"
  using assms(3) unfolding parse_lines_step [OF assms(1,2)] loop_body_def
  by (simp split: option.splits)

lemma fgets_unterminated:
  assumes "CHR 0x0A \<notin> set p" and "length p \<le> n"
  shows "fgets n p = (p, [])"
  using assms
proof (induction p arbitrary: n)
  case Nil
  then show ?case by simp
next
  case (Cons c p)
  then have "fgets (n - 1) p = (p, [])" by (intro Cons.IH) auto
  with Cons.prems show ?case by auto
qed

lemma fgets_append:
  assumes "pre \<noteq> []" and "last pre = CHR 0x0A" and "0 < n" and "fgets n pre = (buf, rest)"
  shows "fgets n (pre @ p) = (buf, rest @ p) \<and> (rest = [] \<or> last rest = CHR 0x0A)"
  using assms
proof (induction pre arbitrary: n buf rest)
  case Nil
  then show ?case by simp
next
  case (Cons c pre)
  show ?case
  proof (cases "c = CHR 0x0A")
    case True
    with Cons.prems show ?thesis by (auto split: if_splits)
  next
    case nl: False
    then have ne: "pre \<noteq> []" and la: "last pre = CHR 0x0A" using Cons.prems(1,2) by (auto split: if_splits)
    show ?thesis
    proof (cases "n - 1 = 0")
      case True
      with ne Cons.prems nl la have "buf = [c]" "rest = pre"
        by (cases pre; auto)+
      with True ne Cons.prems nl la show ?thesis by (cases pre) auto
    next
      case False
      obtain l r where lr: "fgets (n - 1) pre = (l, r)" by (cases "fgets (n - 1) pre")
      from Cons.IH [OF ne la _ lr] False
      have "fgets (n - 1) (pre @ p) = (l, r @ p) \<and> (r = [] \<or> last r = CHR 0x0A)" by simp
      with lr Cons.prems(3,4) nl show ?thesis by auto
    qed
  qed
qed

lemma parse_lines_append:
  assumes "pre = [] \<or> last pre = CHR 0x0A"
  shows "parse_lines env fd bd (pre @ p) rv =
         (case parse_lines env fd bd pre rv of
            Fault \<Rightarrow> Fault
          | Returns rv1 \<Rightarrow> parse_lines env fd bd p rv1)"
  using assms
proof (induction pre arbitrary: rv rule: length_induct)
  case (1 pre)
  show ?case
  proof (cases "pre = []")
    case True
    then show ?thesis by (simp add: parse_lines_Nil)
  next
    case False
    then have la: "last pre = CHR 0x0A" using "1.prems" by simp
    obtain buf rest where f: "fgets PATH_MAX pre = (buf, rest)" by (cases "fgets PATH_MAX pre")
    have len: "length rest < length pre" using fgets_shorter [OF False f] .
    have pm: "0 < PATH_MAX" by (simp add: PATH_MAX_def)
    from fgets_append [OF False la pm f, of p]
    have f2: "fgets PATH_MAX (pre @ p) = (buf, rest @ p)" and r: "rest = [] \<or> last rest = CHR 0x0A"
      by simp_all
    have ne: "pre @ p \<noteq> []" using False by simp
    show ?thesis
    proof (cases "c_str buf = []")
      case True
      then show ?thesis
        unfolding parse_lines_step [OF False f] parse_lines_step [OF ne f2] by simp
    next
      case nz: False
      show ?thesis
        unfolding parse_lines_body [OF False f nz] parse_lines_body [OF ne f2 nz]
        using "1.IH" len r by blast
    qed
  qed
qed

lemma c_str_id: "CHR 0x00 \<notin> set p \<Longrightarrow> c_str p = p"
  unfolding c_str_def by (rule takeWhile_eq_all_conv [THEN iffD2]) auto

lemma fgets_terminated:
  assumes "CHR 0x0A \<notin> set p" and "length p < n"
  shows "fgets n (p @ [CHR 0x0A] @ s) = (p @ [CHR 0x0A], s)"
  using assms
proof (induction p arbitrary: n)
  case Nil
  then show ?case by simp
next
  case (Cons c p)
  then have "fgets (n - 1) (p @ [CHR 0x0A] @ s) = (p @ [CHR 0x0A], s)" by (intro Cons.IH) auto
  with Cons.prems show ?case by auto
qed

text \<open>
  C10. The parser removes the last character of every line it reads, whatever the
  character is (\<open>parse_lines_body\<close>: the path resolved is \<open>butlast\<close> of the line).
  So a last line \<open>p\<close> that no newline ends is resolved as \<open>p\<close> without its final
  character, where the same line ended by a newline is resolved as \<open>p\<close>.
\<close>

theorem final_character_is_removed:
  assumes "pre = [] \<or> last pre = CHR 0x0A"
    and "p \<noteq> []" and "CHR 0x0A \<notin> set p" and "CHR 0x00 \<notin> set p" and "length p < PATH_MAX"
  shows "parse_lines env fd bd (pre @ p) rv =
           map_outcome (loop_body env fd (resolve bd (butlast p))) (parse_lines env fd bd pre rv) \<and>
         parse_lines env fd bd (pre @ p @ [CHR 0x0A]) rv =
           map_outcome (loop_body env fd (resolve bd p)) (parse_lines env fd bd pre rv)"
proof -
  have u: "fgets PATH_MAX p = (p, [])"
    using assms(3,5) by (intro fgets_unterminated) simp_all
  have l: "parse_lines env fd bd p rv1 = Returns (loop_body env fd (resolve bd (butlast p)) rv1)" for rv1
    using assms(2,4) by (simp add: parse_lines_body [OF assms(2) u] c_str_id parse_lines_Nil)
  have t: "fgets PATH_MAX (p @ [CHR 0x0A]) = (p @ [CHR 0x0A], [])"
    using fgets_terminated [OF assms(3,5), of "[]"] by simp
  have z: "c_str (p @ [CHR 0x0A]) = p @ [CHR 0x0A]"
    using assms(4) by (intro c_str_id) simp
  have m: "parse_lines env fd bd (p @ [CHR 0x0A]) rv1 = Returns (loop_body env fd (resolve bd p) rv1)" for rv1
    by (simp add: parse_lines_body [OF _ t] z parse_lines_Nil)
  have a: "parse_lines env fd bd (pre @ p) rv =
           map_outcome (loop_body env fd (resolve bd (butlast p))) (parse_lines env fd bd pre rv)"
    unfolding parse_lines_append [OF assms(1)] l
    by (cases "parse_lines env fd bd pre rv") simp_all
  have b: "parse_lines env fd bd (pre @ p @ [CHR 0x0A]) rv =
           map_outcome (loop_body env fd (resolve bd p)) (parse_lines env fd bd pre rv)"
    unfolding parse_lines_append [OF assms(1)] m
    by (cases "parse_lines env fd bd pre rv") simp_all
  from a b show ?thesis by blast
qed

theorem final_character_is_removed_witness:
  "(ex_line = [] \<or> last ex_line = CHR 0x0A) \<and> ''ab'' \<noteq> [] \<and> CHR 0x0A \<notin> set ''ab'' \<and>
   CHR 0x00 \<notin> set ''ab'' \<and> length ''ab'' < PATH_MAX \<and> butlast ''ab'' = ''a'' \<and>
   parse_lines ex_os 3 ''/s'' ex_line ex_rv0 =
     Returns \<lparr>chunks = [\<lparr>chunk_fd = 5, startOffset = 2, chunk_fsize = 5\<rparr>],
              cf_fd = 3, cf_fsize = 5, refcount = 1\<rparr> \<and>
   parse_lines ex_os 3 ''/s'' (ex_line @ ''ab'') ex_rv0 =
     Returns \<lparr>chunks = [\<lparr>chunk_fd = 5, startOffset = 2, chunk_fsize = 5\<rparr>,
                        \<lparr>chunk_fd = 6, startOffset = 0, chunk_fsize = 10\<rparr>],
              cf_fd = 3, cf_fsize = 15, refcount = 1\<rparr> \<and>
   parse_lines ex_os 3 ''/s'' (ex_line @ ''ab'' @ [CHR 0x0A]) ex_rv0 =
     Returns \<lparr>chunks = [\<lparr>chunk_fd = 5, startOffset = 2, chunk_fsize = 5\<rparr>],
              cf_fd = 3, cf_fsize = 5, refcount = 1\<rparr>"
proof -
  have a: "ex_line = [] \<or> last ex_line = CHR 0x0A" by (simp add: ex_line_def)
  have e: "length ''ab'' < PATH_MAX" by (simp add: PATH_MAX_def)
  have p: "parse_lines ex_os 3 ''/s'' ex_line ex_rv0 =
     Returns \<lparr>chunks = [\<lparr>chunk_fd = 5, startOffset = 2, chunk_fsize = 5\<rparr>],
              cf_fd = 3, cf_fsize = 5, refcount = 1\<rparr>"
    by code_simp
  have b1: "loop_body ex_os 3 (resolve ''/s'' ''a'')
      \<lparr>chunks = [\<lparr>chunk_fd = 5, startOffset = 2, chunk_fsize = 5\<rparr>],
              cf_fd = 3, cf_fsize = 5, refcount = 1\<rparr> =
      \<lparr>chunks = [\<lparr>chunk_fd = 5, startOffset = 2, chunk_fsize = 5\<rparr>,
                        \<lparr>chunk_fd = 6, startOffset = 0, chunk_fsize = 10\<rparr>],
              cf_fd = 3, cf_fsize = 15, refcount = 1\<rparr>"
    by code_simp
  have b2: "loop_body ex_os 3 (resolve ''/s'' ''ab'')
      \<lparr>chunks = [\<lparr>chunk_fd = 5, startOffset = 2, chunk_fsize = 5\<rparr>],
              cf_fd = 3, cf_fsize = 5, refcount = 1\<rparr> =
      \<lparr>chunks = [\<lparr>chunk_fd = 5, startOffset = 2, chunk_fsize = 5\<rparr>],
              cf_fd = 3, cf_fsize = 5, refcount = 1\<rparr>"
    by code_simp
  from final_character_is_removed [OF a _ _ _ e, of ex_os 3 "''/s''" ex_rv0] a e p b1 b2
  show ?thesis by simp
qed

subsection \<open>Defaults and clamping of the offsets\<close>

lemma strchr_none: "c \<notin> set s \<Longrightarrow> strchr s c = None"
  by (simp add: strchr_def)

lemma strchr_first: "c \<notin> set p \<Longrightarrow> strchr (p @ c # r) c = Some (p, r)"
  by (induction p) (auto simp: strchr_def)

lemma takeWhile_stop: "\<not> P y \<Longrightarrow> takeWhile P (xs @ y # ys) = takeWhile P xs"
  by (induction xs) auto

lemma dropWhile_stop:
  "\<not> P y \<Longrightarrow> dropWhile P (xs @ y # ys) = dropWhile P xs @ y # ys"
  by (induction xs) auto

lemma sscanf_jd_colon: "sscanf_jd (a @ CHR '':'' # b) = sscanf_jd a"
proof -
  have sp: "\<not> isspace CHR '':''" by (simp add: isspace_def)
  have dg: "\<not> isdigit CHR '':''" by (simp add: isdigit_def)
  define t where "t = dropWhile isspace a"
  have d: "dropWhile isspace (a @ CHR '':'' # b) = t @ CHR '':'' # b"
    unfolding t_def using sp by (rule dropWhile_stop [where P = isspace])
  show ?thesis
  proof (cases t)
    case Nil
    then show ?thesis
      unfolding sscanf_jd_def d t_def [symmetric] by (simp add: dg)
  next
    case (Cons x u)
    then show ?thesis
      unfolding sscanf_jd_def d t_def [symmetric]
      using takeWhile_stop [where P = isdigit, OF dg, of u b]
        takeWhile_stop [where P = isdigit, OF dg, of "x # u" b]
      by (simp add: Let_def)
  qed
qed

lemma spec_start_range: "1 \<le> sz \<Longrightarrow> 0 \<le> spec_start a sz \<and> spec_start a sz \<le> sz - 1"
  by (auto simp: spec_start_def split: option.splits)

lemma spec_length_range: "s \<le> sz - 1 \<Longrightarrow> 1 \<le> spec_length b sz s \<and> spec_length b sz s \<le> sz - s"
  by (auto simp: spec_length_def split: option.splits)

lemma try_parse_fields:
  assumes "p \<noteq> []" and "CHR '':'' \<notin> set p" and "CHR '':'' \<notin> set a"
    and "sys_stat env p = Some sz" and "1 \<le> sz" and "sz \<le> OFF_T_MAX"
  shows "try_parse_line_offsets env p = Some (p, 0, sz)"
    and "try_parse_line_offsets env (p @ '':'' @ a) = Some (p, spec_start a sz, sz - spec_start a sz)"
    and "try_parse_line_offsets env (p @ '':'' @ a @ '':'' @ b) =
           Some (p, spec_start a sz, spec_length b sz (spec_start a sz))"
proof -
  have c0: "CLAMP s0 0 (sz - 1) = min (sz - 1) (max s0 0)" for s0
    using assms(5) by (simp add: CLAMP_eq)
  have c1: "CLAMP l0 1 (sz - s) = min (sz - s) (max l0 1)" if "s \<le> sz - 1" for l0 s
    using that by (simp add: CLAMP_eq)
  have d: "min (sz - s) (max OFF_T_MAX 1) = sz - s" if "0 \<le> s" for s
    using assms(6) that by (simp add: OFF_T_MAX_def)
  show "try_parse_line_offsets env p = Some (p, 0, sz)"
    using assms(1,2,4,5) d [of 0]
    by (simp add: try_parse_line_offsets_def strchr_none Let_def c0 c1)
  have r: "0 \<le> spec_start a sz \<and> spec_start a sz \<le> sz - 1" by (rule spec_start_range [OF assms(5)])
  have s: "CLAMP (case sscanf_jd a of None \<Rightarrow> - 1 | Some v \<Rightarrow> v) 0 (sz - 1) = spec_start a sz"
    using assms(5) by (simp add: c0 spec_start_def split: option.splits)
  note sa = sscanf_jd_colon
  show "try_parse_line_offsets env (p @ '':'' @ a) = Some (p, spec_start a sz, sz - spec_start a sz)"
    using assms(1-5) r d [of "spec_start a sz"]
    by (simp add: try_parse_line_offsets_def strchr_first strchr_none Let_def s c1)
  have l: "CLAMP (case sscanf_jd b of None \<Rightarrow> OFF_T_MAX | Some v \<Rightarrow> v) 1 (sz - spec_start a sz) =
           spec_length b sz (spec_start a sz)"
    using r d [of "spec_start a sz"] by (simp add: c1 spec_length_def split: option.splits)
  show "try_parse_line_offsets env (p @ '':'' @ a @ '':'' @ b) =
           Some (p, spec_start a sz, spec_length b sz (spec_start a sz))"
    using assms(1-5)
    by (simp add: try_parse_line_offsets_def strchr_first Let_def sa s l)
qed

lemma sscanf_jd_examples:
  "sscanf_jd [] = None" "sscanf_jd ''5'' = Some 5" "sscanf_jd ''7'' = Some 7"
  by code_simp+

text \<open>
  The offsets that \<^verbatim>\<open>try_parse_line_offsets\<close> computes from the text it is given,
  when the part before the first colon is a path \<open>p\<close> that stats with a size \<open>sz\<close> of
  at least 1: without fields the start is 0 and the length \<open>sz\<close>; a start field that
  holds no number gives the start 0, a length field that is missing or holds no number
  gives the rest of the file from the start; a start that is given is clamped to
  \<open>[0, sz - 1]\<close> and a length that is given to \<open>[1, sz - start]\<close>.
\<close>

lemma try_parse_offsets_default_and_clamp:
  assumes "p \<noteq> []" and "CHR '':'' \<notin> set p" and "CHR '':'' \<notin> set a"
    and "sys_stat env p = Some sz" and "1 \<le> sz" and "sz \<le> OFF_T_MAX"
  shows "try_parse_line_offsets env p = Some (p, 0, sz) \<and>
    try_parse_line_offsets env (p @ '':'' @ a) =
      Some (p, spec_start a sz, sz - spec_start a sz) \<and>
    try_parse_line_offsets env (p @ '':'' @ a @ '':'' @ b) =
      Some (p, spec_start a sz, spec_length b sz (spec_start a sz)) \<and>
    0 \<le> spec_start a sz \<and> spec_start a sz \<le> sz - 1 \<and>
    1 \<le> spec_length b sz (spec_start a sz) \<and>
    spec_length b sz (spec_start a sz) \<le> sz - spec_start a sz \<and>
    try_parse_line_offsets env (p @ '':'') = Some (p, 0, sz) \<and>
    try_parse_line_offsets env (p @ '':5:'') = Some (p, min 5 (sz - 1), sz - min 5 (sz - 1)) \<and>
    (5 < sz \<longrightarrow> try_parse_line_offsets env (p @ '':5:'') = Some (p, 5, sz - 5)) \<and>
    try_parse_line_offsets env (p @ ''::7'') = Some (p, 0, min 7 sz)"
proof -
  note f = try_parse_fields [OF assms(1,2) _ assms(4-6)]
  have r: "0 \<le> spec_start a sz \<and> spec_start a sz \<le> sz - 1"
    by (rule spec_start_range [OF assms(5)])
  then have l: "1 \<le> spec_length b sz (spec_start a sz) \<and>
      spec_length b sz (spec_start a sz) \<le> sz - spec_start a sz"
    by (intro spec_length_range) simp
  have e: "CHR '':'' \<notin> set []" "CHR '':'' \<notin> set ''5''" by simp_all
  have s0: "spec_start [] sz = 0" and s5: "spec_start ''5'' sz = min 5 (sz - 1)"
    using assms(5) by (simp_all add: spec_start_def sscanf_jd_examples)
  have l0: "spec_length [] sz s = sz - s" and l7: "spec_length ''7'' sz 0 = min 7 sz" for s
    by (simp_all add: spec_length_def sscanf_jd_examples)
  have x1: "try_parse_line_offsets env (p @ '':'') = Some (p, 0, sz)"
    using f(2) [OF e(1)] by (simp add: s0)
  have x2: "try_parse_line_offsets env (p @ '':5:'') = Some (p, min 5 (sz - 1), sz - min 5 (sz - 1))"
    using f(3) [OF e(2), of "[]"] by (simp add: s5 l0)
  have x3: "try_parse_line_offsets env (p @ ''::7'') = Some (p, 0, min 7 sz)"
    using f(3) [OF e(1), of "''7''"] by (simp add: s0 l7)
  have x4: "5 < sz \<longrightarrow> try_parse_line_offsets env (p @ '':5:'') = Some (p, 5, sz - 5)"
    using x2 by simp
  from f(1) [OF assms(3)] f(2) [OF assms(3)] f(3) [OF assms(3), of b] r l x1 x2 x3 x4
  show ?thesis by blast
qed

lemma try_parse_offsets_examples:
  "''/s/a'' \<noteq> [] \<and> CHR '':'' \<notin> set ''/s/a'' \<and> CHR '':'' \<notin> set ''2'' \<and>
   sys_stat ex_os ''/s/a'' = Some 10 \<and> (1 :: int) \<le> 10 \<and> 10 \<le> OFF_T_MAX \<and>
   try_parse_line_offsets ex_os ''/s/a'' = Some (''/s/a'', 0, 10) \<and>
   try_parse_line_offsets ex_os ''/s/a:2'' = Some (''/s/a'', 2, 8) \<and>
   try_parse_line_offsets ex_os ''/s/a:2:5'' = Some (''/s/a'', 2, 5) \<and>
   try_parse_line_offsets ex_os ''/s/a:'' = Some (''/s/a'', 0, 10) \<and>
   try_parse_line_offsets ex_os ''/s/a:5:'' = Some (''/s/a'', 5, 5) \<and>
   try_parse_line_offsets ex_os ''/s/a::7'' = Some (''/s/a'', 0, 7)"
proof -
  have c: "CHR '':'' \<notin> set ''/s/a''" "CHR '':'' \<notin> set ''2''" by simp_all
  have s: "sys_stat ex_os ''/s/a'' = Some 10" by (simp add: ex_os_def)
  have m: "(10 :: int) \<le> OFF_T_MAX" by (simp add: OFF_T_MAX_def)
  have v: "spec_start ''2'' 10 = 2" "spec_length ''5'' 10 2 = 5" by code_simp+
  from try_parse_offsets_default_and_clamp [OF _ c s _ m, of "''5''"] c s m show ?thesis
    by (simp add: v)
qed

text \<open>
  The parser hands \<^verbatim>\<open>try_parse_line_offsets\<close> the resolved path, not the line. For a
  relative line in a directory whose name holds no colon the fields found are those of
  the line.
\<close>

lemma resolve_relative:
  assumes "x \<noteq> []" and "hd x \<noteq> CHR ''/''" and "length (bd @ ''/'' @ x) < PATH_MAX"
  shows "resolve bd x = bd @ ''/'' @ x"
  using assms by (simp add: resolve_def)

lemma line_offsets_colon_free:
  assumes "CHR '':'' \<notin> set bd" and "p \<noteq> []" and "hd p \<noteq> CHR ''/''"
    and "CHR '':'' \<notin> set p" and "CHR '':'' \<notin> set a"
    and "length (bd @ ''/'' @ p @ '':'' @ a @ '':'' @ b) < PATH_MAX"
    and "sys_stat env (bd @ ''/'' @ p) = Some sz" and "1 \<le> sz" and "sz \<le> OFF_T_MAX"
  shows "try_parse_line_offsets env (resolve bd p) = Some (bd @ ''/'' @ p, 0, sz) \<and>
    try_parse_line_offsets env (resolve bd (p @ '':'' @ a)) =
      Some (bd @ ''/'' @ p, spec_start a sz, sz - spec_start a sz) \<and>
    try_parse_line_offsets env (resolve bd (p @ '':'' @ a @ '':'' @ b)) =
      Some (bd @ ''/'' @ p, spec_start a sz, spec_length b sz (spec_start a sz))"
proof -
  have c: "CHR '':'' \<notin> set (bd @ ''/'' @ p)" using assms(1,4) by simp
  have n: "bd @ ''/'' @ p \<noteq> []" by simp
  note f = try_parse_fields [OF n c assms(5,7-9)]
  have h: "hd (p @ x) \<noteq> CHR ''/''" "p @ x \<noteq> []" for x using assms(2,3) by simp_all
  have r1: "resolve bd p = bd @ ''/'' @ p"
    using assms(2,3,6) by (intro resolve_relative) simp_all
  have r2: "resolve bd (p @ '':'' @ a) = (bd @ ''/'' @ p) @ '':'' @ a"
    using h [of "'':'' @ a"] assms(6) by (simp add: resolve_relative)
  have r3: "resolve bd (p @ '':'' @ a @ '':'' @ b) = (bd @ ''/'' @ p) @ '':'' @ a @ '':'' @ b"
    using h [of "'':'' @ a @ '':'' @ b"] assms(6) by (simp add: resolve_relative)
  show ?thesis unfolding r1 r2 r3 using f by simp
qed

text \<open>
  C4. The defaults and the clamping above are those of the line only when the first
  colon of the resolved path is the first colon of the line. The line is resolved
  before it is cut, and \<^verbatim>\<open>strchr(line, ':')\<close> looks for the colon in the resolved
  path: a colon in the name of the description's directory ends the path there, and the
  fields are read from the rest of the directory name and the line. Here the
  description is in \<open>/s:3\<close>, the directory \<open>/s\<close> exists with 4096 bytes, and the backing
  file \<open>/s:3/a\<close> has ten bytes: the line \<open>a\<close>, which has no start field, yields a
  segment of \<open>/s\<close> with start 3 and length 4093 instead of start 0 and length 10 of
  \<open>/s:3/a\<close>, and the line \<open>a:5:\<close> yields start 3 and length 5 instead of start 5 and
  length 5.
\<close>

theorem colon_in_directory_sets_offsets:
  "fdopen_dup_r ex_os_colon 3 = Some (''a'' @ [CHR 0x0A]) \<and>
   dirname ''/s:3//m-concat-x'' = ''/s:3'' \<and>
   resolve ''/s:3'' ''a'' = ''/s:3/a'' \<and>
   sys_stat ex_os_colon ''/s:3/a'' = Some 10 \<and>
   try_parse_line_offsets ex_os_colon (resolve ''/s:3'' ''a'') = Some (''/s'', 3, 4093) \<and>
   try_parse_line_offsets ex_os_colon (resolve ''/s:3'' ''a:5:'') = Some (''/s'', 3, 5) \<and>
   open_concat_file ex_os_colon 3 ''/s:3//m-concat-x'' =
     Returns (Some \<lparr>chunks = [\<lparr>chunk_fd = 5, startOffset = 3, chunk_fsize = 4093\<rparr>],
                     cf_fd = 3, cf_fsize = 4093, refcount = 1\<rparr>)"
proof -
  have "dirname ''/s:3//m-concat-x'' = ''/s:3''" by code_simp
  moreover have "resolve ''/s:3'' ''a'' = ''/s:3/a''" by code_simp
  moreover have "try_parse_line_offsets ex_os_colon (resolve ''/s:3'' ''a'') = Some (''/s'', 3, 4093)"
    by code_simp
  moreover have "try_parse_line_offsets ex_os_colon (resolve ''/s:3'' ''a:5:'') = Some (''/s'', 3, 5)"
    by code_simp
  moreover have "open_concat_file ex_os_colon 3 ''/s:3//m-concat-x'' =
     Returns (Some \<lparr>chunks = [\<lparr>chunk_fd = 5, startOffset = 3, chunk_fsize = 4093\<rparr>],
                     cf_fd = 3, cf_fsize = 4093, refcount = 1\<rparr>)"
    by code_simp
  ultimately show ?thesis by (simp add: ex_os_colon_def)
qed

subsection \<open>The classifier of paths\<close>

lemma starts_with_iff: "starts_with s n \<longleftrightarrow> (\<exists>post. s = n @ post)"
  by (induction s n rule: starts_with.induct) auto

lemma strstr_iff: "strstr h n \<longleftrightarrow> (\<exists>pre post. h = pre @ n @ post)"
proof (induction h)
  case Nil
  then show ?case by auto
next
  case (Cons c h)
  show ?case
  proof
    assume "strstr (c # h) n"
    then consider "starts_with (c # h) n" | "strstr h n" by auto
    then show "\<exists>pre post. c # h = pre @ n @ post"
    proof cases
      case 1
      then obtain post where "c # h = [] @ n @ post" by (auto simp: starts_with_iff)
      then show ?thesis by blast
    next
      case 2
      with Cons.IH obtain pre post where "h = pre @ n @ post" by blast
      then have "c # h = (c # pre) @ n @ post" by simp
      then show ?thesis by blast
    qed
  next
    assume "\<exists>pre post. c # h = pre @ n @ post"
    then obtain pre post where e: "c # h = pre @ n @ post" by blast
    show "strstr (c # h) n"
    proof (cases pre)
      case Nil
      with e have "starts_with (c # h) n" by (auto simp: starts_with_iff)
      then show ?thesis by simp
    next
      case (Cons d pre')
      with e have "h = pre' @ n @ post" by simp
      with Cons.IH have "strstr h n" by blast
      then show ?thesis by simp
    qed
  qed
qed

lemma basename_component:
  assumes "b \<noteq> []" and "CHR ''/'' \<notin> set b"
  shows "basename (d @ ''/'' @ b) = b"
proof -
  obtain b' x where b: "b = b' @ [x]" using assms(1) by (cases b rule: rev_cases) auto
  then have x: "x \<noteq> CHR ''/''" using assms(2) by auto
  have s: "strip_slashes (d @ ''/'' @ b) = d @ ''/'' @ b"
    using x by (simp add: b)
  have "\<forall>c\<in>set (rev b). c \<noteq> CHR ''/''" using assms(2) by auto
  then have t: "takeWhile (\<lambda>c. c \<noteq> CHR ''/'') (rev b @ CHR ''/'' # rev d) = rev b"
    by (simp add: takeWhile_stop)
  show ?thesis
    unfolding basename_def Let_def s using t assms(1) by simp
qed

text \<open>
  C6. For a path shorter than \<^verbatim>\<open>PATH_MAX\<close>, \<^verbatim>\<open>is_concatfs_file\<close> is true exactly when
  the basename of the path contains \<open>-concat-\<close>. Two paths with the same basename are
  classified alike; and for a final component \<open>b\<close> below any directory part \<open>d\<close> the
  result is whether \<open>b\<close> contains the marker, whatever \<open>d\<close> contains.
\<close>

theorem is_concatfs_file_basename:
  assumes "length path < PATH_MAX" and "length path' < PATH_MAX"
    and "b \<noteq> []" and "CHR ''/'' \<notin> set b" and "length (d @ ''/'' @ b) < PATH_MAX"
  shows "is_concatfs_file path = Returns (\<exists>pre post. basename path = pre @ ''-concat-'' @ post) \<and>
         (basename path = basename path' \<longrightarrow> is_concatfs_file path = is_concatfs_file path') \<and>
         basename (d @ ''/'' @ b) = b \<and>
         is_concatfs_file (d @ ''/'' @ b) = Returns (\<exists>pre post. b = pre @ ''-concat-'' @ post)"
  using assms basename_component [OF assms(3,4), of d]
  by (simp add: is_concatfs_file_def strstr_iff)

theorem is_concatfs_file_basename_witness:
  "length ''/m-concat-x'' < PATH_MAX \<and> length ''/sub/m-concat-x'' < PATH_MAX \<and>
   ''plain.txt'' \<noteq> [] \<and> CHR ''/'' \<notin> set ''plain.txt'' \<and>
   length (''/dir-concat-x'' @ ''/'' @ ''plain.txt'') < PATH_MAX \<and>
   basename ''/m-concat-x'' = basename ''/sub/m-concat-x'' \<and>
   is_concatfs_file ''/m-concat-x'' = Returns True \<and>
   is_concatfs_file ''/sub/m-concat-x'' = Returns True \<and>
   is_concatfs_file ''/dir-concat-x/plain.txt'' = Returns False"
proof -
  have a: "length ''/m-concat-x'' < PATH_MAX" "length ''/sub/m-concat-x'' < PATH_MAX"
    "length (''/dir-concat-x'' @ ''/'' @ ''plain.txt'') < PATH_MAX"
    by (simp_all add: PATH_MAX_def)
  have b: "CHR ''/'' \<notin> set ''plain.txt''" by simp
  have c: "basename ''/m-concat-x'' = ''m-concat-x''" "basename ''/sub/m-concat-x'' = ''m-concat-x''"
    by code_simp+
  have d: "(\<exists>pre post. ''m-concat-x'' = pre @ ''-concat-'' @ post) = True"
    unfolding strstr_iff [symmetric] by code_simp
  have e: "(\<exists>pre post. ''plain.txt'' = pre @ ''-concat-'' @ post) = False"
    unfolding strstr_iff [symmetric] by code_simp
  have "is_concatfs_file ''/m-concat-x'' = Returns True \<and>
        is_concatfs_file ''/m-concat-x'' = is_concatfs_file ''/sub/m-concat-x'' \<and>
        is_concatfs_file (''/dir-concat-x'' @ ''/'' @ ''plain.txt'') = Returns False"
    using is_concatfs_file_basename [OF a(1,2) _ b a(3)]
    unfolding c d e by auto
  with a b c show ?thesis by auto
qed

text \<open>
  The classifier of \<^verbatim>\<open>poc_concatfs.c\<close> differs: a marker in a directory name makes
  every file below it virtual.
\<close>

lemma poc_is_concatfs_file_directory:
  "poc_is_concatfs_file ''/dir-concat-x/plain.txt'' \<and>
   is_concatfs_file ''/dir-concat-x/plain.txt'' = Returns False"
  by code_simp

subsection \<open>Opening a virtual file without an object\<close>

lemma read_unregistered:
  assumes "open_files_find open_files fd = None"
  shows "ret (read_concat_file env open_files fd count offset) = - EINVAL"
  using assms by (simp add: read_concat_file_def)

lemma concatfs_open_null:
  assumes "sys_open env (take (PATH_MAX - 1) (src_dir env @ ''/'' @ path)) flags = Inr fd"
    and "is_concatfs_file path = Returns True"
    and "open_concat_file env fd (take (PATH_MAX - 1) (src_dir env @ ''/'' @ path)) = Returns None"
  shows "concatfs_open env open_files path flags = Fault"
  using assms by (simp add: concatfs_open_def open_files_push_front_def)

text \<open>
  C7. A read through a handle for which no object is registered returns \<open>-EINVAL\<close>
  (\<open>read_unregistered\<close>). But an open of a virtual path whose parse returns no object
  does not come back: \<^verbatim>\<open>concatfs_open\<close> passes the null pointer to
  \<^verbatim>\<open>open_files_push_front\<close>, which stores into \<^verbatim>\<open>cf->next\<close>
  (\<open>concatfs_open_null\<close>). Here the description is opened for writing only and the
  stream for the parse cannot be opened.
\<close>

theorem open_without_object_faults:
  "sys_open ex_os_wronly ''/s//m-concat-x'' 1 = Inr 3 \<and>
   is_concatfs_file ''/m-concat-x'' = Returns True \<and>
   open_concat_file ex_os_wronly 3 ''/s//m-concat-x'' = Returns None \<and>
   open_files_push_front [] None = Fault \<and>
   concatfs_open ex_os_wronly [] ''/m-concat-x'' 1 = Fault"
  by code_simp

end
